theory Spec2Isabelle
  imports Main "HOL-Library.Sublist"
begin

section \<open>Data model\<close>

text \<open>
  The interface \<^verbatim>\<open>ProcessedImage\<close> (lines 19--26). The optional field \<^verbatim>\<open>error\<close> is an
  option; \<^verbatim>\<open>id\<close> and \<^verbatim>\<open>text\<close> carry a suffix because both words are taken in Isabelle.
\<close>

record ProcessedImage =
  id_img :: string
  name :: string
  text_img :: string
  isProcessing :: bool
  error :: "string option"
  imageUrl :: string

text \<open>What the code reads of a dropped \<^verbatim>\<open>File\<close>: its name and its declared MIME type.\<close>

record File =
  file_name :: string
  file_type :: string

section \<open>The updaters handed to \<^verbatim>\<open>setProcessedImages\<close>\<close>

text \<open>Lines 44--53: the record of a file that was just taken in, appended to the list.\<close>

definition newImage :: "string \<Rightarrow> string \<Rightarrow> string \<Rightarrow> ProcessedImage" where
  "newImage imageId fname url =
     \<lparr>id_img = imageId, name = fname, text_img = [], isProcessing = True,
      error = None, imageUrl = url\<rparr>"

definition appendImage ::
  "string \<Rightarrow> string \<Rightarrow> string \<Rightarrow> ProcessedImage list \<Rightarrow> ProcessedImage list" where
  "appendImage imageId fname url prev = prev @ [newImage imageId fname url]"

text \<open>Lines 78--82: every record whose id matches receives the text accumulated so far.\<close>

definition setText :: "string \<Rightarrow> string \<Rightarrow> ProcessedImage list \<Rightarrow> ProcessedImage list" where
  "setText imageId fullText prev =
     map (\<lambda>img. if id_img img = imageId then img\<lparr>text_img := fullText\<rparr> else img) prev"

text \<open>Lines 85--89: the end of the stream.\<close>

definition setDone :: "string \<Rightarrow> ProcessedImage list \<Rightarrow> ProcessedImage list" where
  "setDone imageId prev =
     map (\<lambda>img. if id_img img = imageId then img\<lparr>isProcessing := False\<rparr> else img) prev"

text \<open>Lines 92--102 and 118--128: the two \<^verbatim>\<open>catch\<close> blocks write the same message.\<close>

definition setFailed :: "string \<Rightarrow> ProcessedImage list \<Rightarrow> ProcessedImage list" where
  "setFailed imageId prev =
     map (\<lambda>img. if id_img img = imageId
                then img\<lparr>isProcessing := False, error := Some ''Failed to process image''\<rparr>
                else img) prev"

text \<open>Lines 108--114: \<^verbatim>\<open>reader.onerror\<close> writes a message of its own.\<close>

definition setReadError :: "string \<Rightarrow> ProcessedImage list \<Rightarrow> ProcessedImage list" where
  "setReadError imageId prev =
     map (\<lambda>img. if id_img img = imageId
                then img\<lparr>isProcessing := False, error := Some ''File reading error''\<rparr>
                else img) prev"

text \<open>Line 168: the filter of \<^verbatim>\<open>removeImage\<close>.\<close>

definition dropImage :: "string \<Rightarrow> ProcessedImage list \<Rightarrow> ProcessedImage list" where
  "dropImage i prev = filter (\<lambda>img. id_img img \<noteq> i) prev"

section \<open>The download action\<close>

text \<open>
  \<^verbatim>\<open>String.prototype.split\<close> with a separator of one character: the pieces between the
  separators, never an empty array.
\<close>

fun split_js :: "char \<Rightarrow> string \<Rightarrow> string list" where
  "split_js sep [] = [[]]"
| "split_js sep (c # cs) =
     (if c = sep then [] # split_js sep cs
      else (case split_js sep cs of
              [] \<Rightarrow> [[c]]
            | p # ps \<Rightarrow> (c # p) # ps))"

text \<open>Index 0 of an array inside a template literal: \<^verbatim>\<open>undefined\<close> is printed when absent.\<close>

definition first_piece :: "string list \<Rightarrow> string" where
  "first_piece ps = (case ps of [] \<Rightarrow> ''undefined'' | p # _ \<Rightarrow> p)"

record download =
  dl_name :: string
  dl_type :: string
  dl_content :: string

text \<open>
  Lines 157--165: a blob of type \<^verbatim>\<open>text/plain\<close> holding the text, offered under the derived
  name. The object URL made for the blob and the temporary anchor are left out.
\<close>

definition downloadText :: "string \<Rightarrow> string \<Rightarrow> download" where
  "downloadText txt filename =
     \<lparr>dl_name = first_piece (split_js CHR ''.'' filename) @ ''-extracted.txt'',
      dl_type = ''text/plain'',
      dl_content = txt\<rparr>"

text \<open>
  The word of the specification, for comparison with the code: the stem of a file name is
  the name without its last extension.
\<close>

definition stem :: "string \<Rightarrow> string" where
  "stem n =
     (if CHR ''.'' \<in> set n
      then rev (tl (dropWhile (\<lambda>c. c \<noteq> CHR ''.'') (rev n)))
      else n)"

section \<open>What a card and the detail pane show\<close>

text \<open>
  Lines 318--340: a truthy \<^verbatim>\<open>error\<close> (a non-empty string) replaces the text of the card;
  otherwise the text is rendered, with the "Show More" button once it is longer than 100.
\<close>

datatype card_body = CardError string | CardText string bool

definition cardBody :: "ProcessedImage \<Rightarrow> card_body" where
  "cardBody img =
     (case error img of
        None \<Rightarrow> CardText (text_img img) (100 < length (text_img img))
      | Some m \<Rightarrow>
          if m \<noteq> [] then CardError m
          else CardText (text_img img) (100 < length (text_img img)))"

definition detail_of :: "ProcessedImage \<Rightarrow> string \<times> string" where
  "detail_of img = (name img, text_img img)"

section \<open>The session: application state, environment and pending work\<close>

text \<open>
  What the environment answers while \<^verbatim>\<open>processImage\<close> runs its synchronous part: the id
  drawn at line 41 (\<^verbatim>\<open>Math.random().toString(36).substring(7)\<close>), the URL returned by
  \<^verbatim>\<open>URL.createObjectURL\<close> at line 42, and the error raised by lines 56--58, if any.
\<close>

record sync_env =
  random_id :: string
  object_url :: string
  setup_error :: "string option"

text \<open>
  Where one call of \<^verbatim>\<open>onDrop\<close> is suspended: inside \<^verbatim>\<open>processImage\<close> waiting for the
  file reader, for the request, for the next chunk (with \<^verbatim>\<open>fullText\<close> so far), inside
  \<^verbatim>\<open>delay\<close> waiting for its timer (with the time it is due), or past its loop.
\<close>

datatype phase =
    Reading string
  | Requesting string
  | Streaming string string
  | Delaying nat
  | Finished

text \<open>
  One call of \<^verbatim>\<open>onDrop\<close>: its argument, the position of its loop and its suspension
  point. The last four fields are history only, written and never read by the code's
  model: when each \<^verbatim>\<open>processImage\<close> call began (with its file and id), when each promise
  settled (\<open>True\<close> for resolved), when each request was sent (with the position of its file
  in the batch) and when each request ended.
\<close>

record task =
  files :: "File list"
  idx :: nat
  phase :: phase
  begun :: "(nat \<times> File \<times> string) list"
  settled :: "(nat \<times> bool) list"
  requested :: "(nat \<times> nat) list"
  answered :: "nat list"

text \<open>
  The two state variables of \<^verbatim>\<open>App\<close> that the claims concern (lines 31, 34), and the
  surroundings: the object URLs that are live (nothing in the file revokes one), the files
  handed to the browser for download, the clipboard, the console, the suspended calls of
  \<^verbatim>\<open>onDrop\<close> and a clock in milliseconds.
\<close>

record App =
  processedImages :: "ProcessedImage list"
  selectedImage :: "ProcessedImage option"
  objectUrls :: "string list"
  downloads :: "download list"
  clipboard :: string
  console :: "string list"
  tasks :: "task list"
  now :: nat

definition init :: App where
  "init = \<lparr>processedImages = [], selectedImage = None, objectUrls = [], downloads = [],
            clipboard = [], console = [], tasks = [], now = 0\<rparr>"

definition upd_task :: "nat \<Rightarrow> (task \<Rightarrow> task) \<Rightarrow> App \<Rightarrow> App" where
  "upd_task b f s = s\<lparr>tasks := (tasks s)[b := f (tasks s ! b)]\<rparr>"

text \<open>Line 28: the promise of \<^verbatim>\<open>delay ms\<close> made at time \<open>t\<close> resolves no earlier than this.\<close>

definition delay :: "nat \<Rightarrow> nat \<Rightarrow> nat" where
  "delay ms t = t + ms"

text \<open>
  Lines 137--142 after the promise of \<^verbatim>\<open>processImage\<close> has settled: a rejection is logged
  by the \<^verbatim>\<open>catch\<close>, and in both cases the loop waits for \<^verbatim>\<open>delay(1000)\<close>.
\<close>

definition settle :: "nat \<Rightarrow> bool \<Rightarrow> App \<Rightarrow> App" where
  "settle b ok s =
     upd_task b (\<lambda>t. t\<lparr>settled := settled t @ [(now s, ok)],
                        phase := Delaying (delay 1000 (now s))\<rparr>) s"

definition resolved :: "nat \<Rightarrow> App \<Rightarrow> App" where
  "resolved b s = settle b True s"

definition rejected :: "nat \<Rightarrow> string \<Rightarrow> App \<Rightarrow> App" where
  "rejected b raw s = settle b False (s\<lparr>console := console s @ [raw]\<rparr>)"

text \<open>
  Lines 39--58 and 117--130, the synchronous part of \<^verbatim>\<open>processImage\<close>, run for the call
  \<open>b\<close> of \<^verbatim>\<open>onDrop\<close>: the id, the preview URL, the new record; then the reader is started,
  or the outer \<^verbatim>\<open>catch\<close> marks the record and rejects.
\<close>

definition processImage :: "nat \<Rightarrow> File \<Rightarrow> sync_env \<Rightarrow> App \<Rightarrow> App" where
  "processImage b f env s =
     (let imageId = random_id env;
          url = object_url env;
          s1 = s\<lparr>objectUrls := objectUrls s @ [url],
                 processedImages := appendImage imageId (file_name f) url (processedImages s)\<rparr>;
          s2 = upd_task b (\<lambda>t. t\<lparr>begun := begun t @ [(now s, f, imageId)]\<rparr>) s1
      in case setup_error env of
           None \<Rightarrow> upd_task b (\<lambda>t. t\<lparr>phase := Reading imageId\<rparr>) s2
         | Some raw \<Rightarrow>
             rejected b raw
               (s2\<lparr>processedImages := setFailed imageId (processedImages s2)\<rparr>))"

text \<open>Lines 60--72: the file is read; the request is sent.\<close>

definition reader_onload :: "nat \<Rightarrow> App \<Rightarrow> App" where
  "reader_onload b s =
     (if b < length (tasks s) then
        (case phase (tasks s ! b) of
           Reading imageId \<Rightarrow>
             upd_task b (\<lambda>t. t\<lparr>phase := Requesting imageId,
                                requested := requested t @ [(now s, idx t)]\<rparr>) s
         | _ \<Rightarrow> s)
      else s)"

text \<open>Lines 107--116: the file could not be read.\<close>

definition reader_onerror :: "nat \<Rightarrow> App \<Rightarrow> App" where
  "reader_onerror b s =
     (if b < length (tasks s) then
        (case phase (tasks s ! b) of
           Reading imageId \<Rightarrow>
             rejected b ''File reading error''
               (s\<lparr>processedImages := setReadError imageId (processedImages s)\<rparr>)
         | _ \<Rightarrow> s)
      else s)"

text \<open>Lines 64--74: the request is answered with a stream; \<^verbatim>\<open>fullText\<close> starts empty.\<close>

definition stream_open :: "nat \<Rightarrow> App \<Rightarrow> App" where
  "stream_open b s =
     (if b < length (tasks s) then
        (case phase (tasks s ! b) of
           Requesting imageId \<Rightarrow> upd_task b (\<lambda>t. t\<lparr>phase := Streaming imageId []\<rparr>) s
         | _ \<Rightarrow> s)
      else s)"

text \<open>Lines 75--83: one turn of the loop over the stream.\<close>

definition stream_chunk :: "nat \<Rightarrow> string \<Rightarrow> App \<Rightarrow> App" where
  "stream_chunk b chunkText s =
     (if b < length (tasks s) then
        (case phase (tasks s ! b) of
           Streaming imageId fullText \<Rightarrow>
             upd_task b (\<lambda>t. t\<lparr>phase := Streaming imageId (fullText @ chunkText)\<rparr>)
               (s\<lparr>processedImages :=
                    setText imageId (fullText @ chunkText) (processedImages s)\<rparr>)
         | _ \<Rightarrow> s)
      else s)"

text \<open>Lines 85--90: the stream is exhausted.\<close>

definition stream_end :: "nat \<Rightarrow> App \<Rightarrow> App" where
  "stream_end b s =
     (if b < length (tasks s) then
        (case phase (tasks s ! b) of
           Streaming imageId fullText \<Rightarrow>
             resolved b
               (upd_task b (\<lambda>t. t\<lparr>answered := answered t @ [now s]\<rparr>)
                  (s\<lparr>processedImages := setDone imageId (processedImages s)\<rparr>))
         | _ \<Rightarrow> s)
      else s)"

text \<open>
  Lines 91--104: the request, the stream or \<^verbatim>\<open>chunk.text()\<close> threw \<open>raw\<close>; the \<^verbatim>\<open>catch\<close>
  does not look at it, and resolves.
\<close>

definition stream_catch :: "nat \<Rightarrow> string \<Rightarrow> App \<Rightarrow> App" where
  "stream_catch b raw s =
     (if b < length (tasks s) then
        (case phase (tasks s ! b) of
           Requesting imageId \<Rightarrow>
             resolved b
               (upd_task b (\<lambda>t. t\<lparr>answered := answered t @ [now s]\<rparr>)
                  (s\<lparr>processedImages := setFailed imageId (processedImages s)\<rparr>))
         | Streaming imageId fullText \<Rightarrow>
             resolved b
               (upd_task b (\<lambda>t. t\<lparr>answered := answered t @ [now s]\<rparr>)
                  (s\<lparr>processedImages := setFailed imageId (processedImages s)\<rparr>))
         | _ \<Rightarrow> s)
      else s)"

text \<open>
  Lines 136--143, the head of the loop of call \<open>b\<close>: the next file, if there is one, enters
  \<^verbatim>\<open>processImage\<close>; otherwise the call returns.
\<close>

definition onDrop_next :: "nat \<Rightarrow> sync_env \<Rightarrow> App \<Rightarrow> App" where
  "onDrop_next b env s =
     (let t = tasks s ! b in
      if idx t < length (files t) then processImage b (files t ! idx t) env s
      else upd_task b (\<lambda>t. t\<lparr>phase := Finished\<rparr>) s)"

text \<open>Line 135: the drop zone calls \<^verbatim>\<open>onDrop\<close> with the files it accepted.\<close>

definition onDrop :: "File list \<Rightarrow> sync_env \<Rightarrow> App \<Rightarrow> App" where
  "onDrop acceptedFiles env s =
     onDrop_next (length (tasks s)) env
       (s\<lparr>tasks := tasks s @
             [\<lparr>files = acceptedFiles, idx = 0, phase = Finished, begun = [], settled = [],
               requested = [], answered = []\<rparr>]\<rparr>)"

text \<open>
  The timer of \<^verbatim>\<open>delay\<close> fires, never before it is due; the loop moves to its next turn.
\<close>

definition timer_fired :: "nat \<Rightarrow> sync_env \<Rightarrow> App \<Rightarrow> App" where
  "timer_fired b env s =
     (if b < length (tasks s) then
        (case phase (tasks s ! b) of
           Delaying due \<Rightarrow>
             if due \<le> now s
             then onDrop_next b env (upd_task b (\<lambda>t. t\<lparr>idx := idx t + 1\<rparr>) s)
             else s
         | _ \<Rightarrow> s)
      else s)"

section \<open>The actions of the user\<close>

definition setSelectedImage :: "ProcessedImage option \<Rightarrow> App \<Rightarrow> App" where
  "setSelectedImage v s = s\<lparr>selectedImage := v\<rparr>"

text \<open>Lines 153--155.\<close>

definition copyToClipboard :: "string \<Rightarrow> App \<Rightarrow> App" where
  "copyToClipboard txt s = s\<lparr>clipboard := txt\<rparr>"

text \<open>Lines 167--172; \<^verbatim>\<open>selectedImage?.id === id\<close> is false when nothing is selected.\<close>

definition removeImage :: "string \<Rightarrow> App \<Rightarrow> App" where
  "removeImage i s =
     (let s1 = s\<lparr>processedImages := dropImage i (processedImages s)\<rparr>
      in if map_option id_img (selectedImage s) = Some i
         then setSelectedImage None s1
         else s1)"

text \<open>Line 257: a click on the card at position \<open>k\<close> of the grid selects the record shown there.\<close>

definition click_card :: "nat \<Rightarrow> App \<Rightarrow> App" where
  "click_card k s =
     (if k < length (processedImages s)
      then setSelectedImage (Some (processedImages s ! k)) s
      else s)"

text \<open>Lines 327--337: the button exists when the card shows a text longer than 100.\<close>

definition click_show_more :: "nat \<Rightarrow> App \<Rightarrow> App" where
  "click_show_more k s =
     (if k < length (processedImages s)
         \<and> cardBody (processedImages s ! k) = CardText (text_img (processedImages s ! k)) True
      then setSelectedImage (Some (processedImages s ! k)) s
      else s)"

text \<open>Line 362: the close button of the detail pane.\<close>

definition click_close :: "App \<Rightarrow> App" where
  "click_close s = (if selectedImage s \<noteq> None then setSelectedImage None s else s)"

text \<open>
  Lines 264--301: the copy, download and remove buttons are rendered only for a record
  that is not processing.
\<close>

definition click_copy :: "nat \<Rightarrow> App \<Rightarrow> App" where
  "click_copy k s =
     (if k < length (processedImages s) \<and> \<not> isProcessing (processedImages s ! k)
      then copyToClipboard (text_img (processedImages s ! k)) s
      else s)"

definition click_download :: "nat \<Rightarrow> App \<Rightarrow> App" where
  "click_download k s =
     (if k < length (processedImages s) \<and> \<not> isProcessing (processedImages s ! k)
      then s\<lparr>downloads := downloads s @
                [downloadText (text_img (processedImages s ! k)) (name (processedImages s ! k))]\<rparr>
      else s)"

definition click_remove :: "nat \<Rightarrow> App \<Rightarrow> App" where
  "click_remove k s =
     (if k < length (processedImages s) \<and> \<not> isProcessing (processedImages s ! k)
      then removeImage (id_img (processedImages s ! k)) s
      else s)"

text \<open>Lines 355--379: the pane shows the name and the text held in \<^verbatim>\<open>selectedImage\<close>.\<close>

definition detailPane :: "App \<Rightarrow> (string \<times> string) option" where
  "detailPane s = map_option detail_of (selectedImage s)"

section \<open>Runs\<close>

text \<open>
  Everything that can happen to the page: a drop, the callbacks of the file reader, of the
  request and of the timer (each for one call of \<^verbatim>\<open>onDrop\<close>), the passing of time, and the
  clicks. A callback that no suspended call waits for does not occur: it leaves the state
  as it is. One stimulus is one turn of the event loop: the code it triggers runs up to its
  next \<^verbatim>\<open>await\<close>, and the updaters it hands to \<^verbatim>\<open>setProcessedImages\<close> are applied in the
  order in which they were handed over.
\<close>

datatype stimulus =
    Drop "File list" sync_env
  | FileLoad nat
  | FileError nat
  | StreamOpen nat
  | StreamChunk nat string
  | StreamEnd nat
  | StreamThrow nat string
  | Timeout nat sync_env
  | Tick nat
  | ClickCard nat
  | ClickShowMore nat
  | ClickClose
  | ClickCopy nat
  | ClickDownload nat
  | ClickRemove nat

fun step :: "stimulus \<Rightarrow> App \<Rightarrow> App" where
  "step (Drop acceptedFiles env) s = onDrop acceptedFiles env s"
| "step (FileLoad b) s = reader_onload b s"
| "step (FileError b) s = reader_onerror b s"
| "step (StreamOpen b) s = stream_open b s"
| "step (StreamChunk b chunkText) s = stream_chunk b chunkText s"
| "step (StreamEnd b) s = stream_end b s"
| "step (StreamThrow b raw) s = stream_catch b raw s"
| "step (Timeout b env) s = timer_fired b env s"
| "step (Tick d) s = s\<lparr>now := now s + d\<rparr>"
| "step (ClickCard k) s = click_card k s"
| "step (ClickShowMore k) s = click_show_more k s"
| "step ClickClose s = click_close s"
| "step (ClickCopy k) s = click_copy k s"
| "step (ClickDownload k) s = click_download k s"
| "step (ClickRemove k) s = click_remove k s"

definition run :: "stimulus list \<Rightarrow> App \<Rightarrow> App" where
  "run ss s = fold step ss s"

section \<open>Notions for the properties\<close>

text \<open>The id a suspended call is working on, and the text it has accumulated.\<close>

fun active :: "phase \<Rightarrow> string option" where
  "active (Reading i) = Some i"
| "active (Requesting i) = Some i"
| "active (Streaming i fullText) = Some i"
| "active (Delaying due) = None"
| "active Finished = None"

fun sofar :: "phase \<Rightarrow> string" where
  "sofar (Streaming i fullText) = fullText"
| "sofar p = []"

text \<open>
  The ids that the environment offers to the calls of \<^verbatim>\<open>processImage\<close> of a run; an offer
  that no call takes up (an empty drop, a timer that is not due) is listed as well.
\<close>

fun draw_of :: "stimulus \<Rightarrow> string list" where
  "draw_of (Drop acceptedFiles env) = [random_id env]"
| "draw_of (Timeout b env) = [random_id env]"
| "draw_of st = []"

definition draws :: "stimulus list \<Rightarrow> string list" where
  "draws ss = concat (map draw_of ss)"

text \<open>The call of \<^verbatim>\<open>processImage\<close> that a stimulus starts, if it starts one.\<close>

fun begins :: "stimulus \<Rightarrow> App \<Rightarrow> (nat \<times> File \<times> sync_env) option" where
  "begins (Drop acceptedFiles env) s =
     (case acceptedFiles of [] \<Rightarrow> None | f # fs \<Rightarrow> Some (length (tasks s), f, env))"
| "begins (Timeout b env) s =
     (if b < length (tasks s) then
        (case phase (tasks s ! b) of
           Delaying due \<Rightarrow>
             if due \<le> now s \<and> Suc (idx (tasks s ! b)) < length (files (tasks s ! b))
             then Some (b, files (tasks s ! b) ! Suc (idx (tasks s ! b)), env)
             else None
         | _ \<Rightarrow> None)
      else None)"
| "begins st s = None"

text \<open>
  The bookkeeping of one call of \<^verbatim>\<open>onDrop\<close> at time \<open>tm\<close>: the files begun so far are the
  first files of the batch, each begun no earlier than one second after the promise before
  it settled, and the history agrees with the suspension point.
\<close>

definition task_inv :: "nat \<Rightarrow> task \<Rightarrow> bool" where
  "task_inv tm t \<longleftrightarrow>
     map (\<lambda>e. fst (snd e)) (begun t) = take (length (begun t)) (files t)
   \<and> length (begun t) \<le> length (files t)
   \<and> length (settled t) \<le> length (begun t)
   \<and> (\<forall>k. Suc k < length (begun t) \<longrightarrow> fst (settled t ! k) + 1000 \<le> fst (begun t ! Suc k))
   \<and> (\<forall>k < length (settled t). fst (begun t ! k) \<le> fst (settled t ! k))
   \<and> (\<forall>k < length (begun t). fst (begun t ! k) \<le> tm)
   \<and> (\<forall>q \<in> set (requested t). snd q < length (begun t) \<and> fst (begun t ! snd q) \<le> fst q)
   \<and> length (answered t) \<le> length (requested t)
   \<and> length (requested t) \<le> Suc (length (answered t))
   \<and> (case phase t of
         Reading i \<Rightarrow>
           length (begun t) = Suc (idx t) \<and> length (settled t) = idx t
           \<and> length (requested t) = length (answered t)
       | Requesting i \<Rightarrow>
           length (begun t) = Suc (idx t) \<and> length (settled t) = idx t
           \<and> length (requested t) = Suc (length (answered t))
       | Streaming i fullText \<Rightarrow>
           length (begun t) = Suc (idx t) \<and> length (settled t) = idx t
           \<and> length (requested t) = Suc (length (answered t))
       | Delaying due \<Rightarrow>
           length (begun t) = Suc (idx t) \<and> length (settled t) = Suc (idx t)
           \<and> fst (settled t ! idx t) + 1000 \<le> due
           \<and> length (requested t) = length (answered t)
       | Finished \<Rightarrow>
           length (begun t) = length (files t) \<and> length (settled t) = length (files t)
           \<and> length (requested t) = length (answered t))"

definition all_inv :: "App \<Rightarrow> bool" where
  "all_inv s \<longleftrightarrow> (\<forall>b < length (tasks s). task_inv (now s) (tasks s ! b))"

text \<open>What the history of call \<open>b\<close> says has begun; nothing for a call that does not exist yet.\<close>

definition begun_before :: "App \<Rightarrow> nat \<Rightarrow> (nat \<times> File \<times> string) list" where
  "begun_before s b = (if b < length (tasks s) then begun (tasks s ! b) else [])"

text \<open>No suspended call is working on the id.\<close>

definition quiet :: "string \<Rightarrow> App \<Rightarrow> bool" where
  "quiet i s \<longleftrightarrow> (\<forall>b < length (tasks s). active (phase (tasks s ! b)) \<noteq> Some i)"

text \<open>
  The list and the suspension points agree: the ids of the list are distinct, no two calls
  work on the same id, and the record a call works on is in the list, still processing,
  without error, holding exactly the text the call has accumulated.
\<close>

definition agree :: "ProcessedImage list \<Rightarrow> phase list \<Rightarrow> bool" where
  "agree store ps \<longleftrightarrow>
     distinct (map id_img store)
   \<and> (\<forall>b < length ps. \<forall>b' < length ps.
         active (ps ! b) \<noteq> None \<and> active (ps ! b) = active (ps ! b') \<longrightarrow> b = b')
   \<and> (\<forall>b < length ps. \<forall>i. active (ps ! b) = Some i \<longrightarrow>
         (\<exists>r \<in> set store. id_img r = i \<and> text_img r = sofar (ps ! b)
                            \<and> isProcessing r \<and> error r = None))"

definition ids_inv :: "App \<Rightarrow> bool" where
  "ids_inv s \<longleftrightarrow> agree (processedImages s) (map phase (tasks s))"

text \<open>
  The id that a stimulus makes \<^verbatim>\<open>processImage\<close> draw in a state, and the ids drawn along a run
  from a state: one for every call of \<^verbatim>\<open>processImage\<close>, none for an offer that is not taken up.
\<close>

definition taken :: "stimulus \<Rightarrow> App \<Rightarrow> string list" where
  "taken st s = (case begins st s of None \<Rightarrow> [] | Some (b, f, env) \<Rightarrow> [random_id env])"

fun drawn :: "stimulus list \<Rightarrow> App \<Rightarrow> string list" where
  "drawn [] s = []"
| "drawn (st # ss) s = taken st s @ drawn ss (step st s)"

text \<open>
  What one stimulus can do to the list of records and to the suspension points of the calls,
  given the ids \<open>ds\<close> it may draw: nothing; move one call on without touching the list;
  write the text of a chunk for the id of a call; end the work of a call on its id, leaving
  the ids of the list and the records with other ids as they are; begin a file for a call
  that was waiting or for a new call, with or without a failing set-up; add a call that
  has nothing to do; remove the records with the id of a record that is not processing.
\<close>

inductive effect ::
  "string list \<Rightarrow> ProcessedImage list \<Rightarrow> phase list \<Rightarrow> ProcessedImage list \<Rightarrow> phase list \<Rightarrow> bool"
  for ds :: "string list" and store :: "ProcessedImage list" and ps :: "phase list" where
  Same: "effect ds store ps store ps"
| Phase: "b < length ps \<Longrightarrow> active p' = active (ps ! b) \<Longrightarrow> sofar p' = sofar (ps ! b) \<Longrightarrow>
     effect ds store ps store (ps[b := p'])"
| Chunk: "b < length ps \<Longrightarrow> active (ps ! b) = Some j \<Longrightarrow>
     effect ds store ps (setText j fullText store) (ps[b := Streaming j fullText])"
| Terminal: "b < length ps \<Longrightarrow> active (ps ! b) = Some j \<Longrightarrow> active p' = None \<Longrightarrow>
     store' = setDone j store \<or> store' = setFailed j store \<or> store' = setReadError j store \<Longrightarrow>
     effect ds store ps store' (ps[b := p'])"
| Begin: "b < length ps \<Longrightarrow> active (ps ! b) = None \<Longrightarrow> d \<in> set ds \<Longrightarrow>
     effect ds store ps (appendImage d n u store) (ps[b := Reading d])"
| BeginFailed: "b < length ps \<Longrightarrow> active (ps ! b) = None \<Longrightarrow> active p' = None \<Longrightarrow> d \<in> set ds \<Longrightarrow>
     effect ds store ps (setFailed d (appendImage d n u store)) (ps[b := p'])"
| NewTask: "active p = None \<Longrightarrow> effect ds store ps store (ps @ [p])"
| NewBegin: "d \<in> set ds \<Longrightarrow> effect ds store ps (appendImage d n u store) (ps @ [Reading d])"
| NewBeginFailed: "active p' = None \<Longrightarrow> d \<in> set ds \<Longrightarrow>
     effect ds store ps (setFailed d (appendImage d n u store)) (ps @ [p'])"
| Removed: "k < length store \<Longrightarrow> \<not> isProcessing (store ! k) \<Longrightarrow>
     effect ds store ps (dropImage (id_img (store ! k)) store) ps"

text \<open>No call is working on the id; and neither a call nor a record has it.\<close>

definition idle :: "string \<Rightarrow> phase list \<Rightarrow> bool" where
  "idle i ps \<longleftrightarrow> Some i \<notin> active ` set ps"

definition unseen :: "string \<Rightarrow> ProcessedImage list \<Rightarrow> phase list \<Rightarrow> bool" where
  "unseen i store ps \<longleftrightarrow> i \<notin> id_img ` set store \<and> idle i ps"

text \<open>
  The list and the suspension points agree on one id: at most one call works on it, and
  while a call does, the id is in the list and every record with the id is processing,
  without error, holding exactly the text the call has accumulated.
\<close>

definition own :: "string \<Rightarrow> ProcessedImage list \<Rightarrow> phase list \<Rightarrow> bool" where
  "own i store ps \<longleftrightarrow>
     (\<forall>b < length ps. \<forall>b' < length ps.
         active (ps ! b) = Some i \<and> active (ps ! b') = Some i \<longrightarrow> b = b')
   \<and> (\<forall>b < length ps. active (ps ! b) = Some i \<longrightarrow>
         i \<in> id_img ` set store
         \<and> (\<forall>r \<in> set store. id_img r = i \<longrightarrow>
               text_img r = sofar (ps ! b) \<and> isProcessing r \<and> error r = None))"

section \<open>Concrete inputs\<close>

definition receipt :: File where
  "receipt = \<lparr>file_name = ''receipt.png'', file_type = ''image/png''\<rparr>"

definition scan :: File where
  "scan = \<lparr>file_name = ''scan.v2.png'', file_type = ''image/png''\<rparr>"

definition draw1 :: sync_env where
  "draw1 = \<lparr>random_id = ''k3x9q'', object_url = ''blob:1'', setup_error = None\<rparr>"

definition draw2 :: sync_env where
  "draw2 = \<lparr>random_id = ''p07fz'', object_url = ''blob:2'', setup_error = None\<rparr>"

text \<open>
  \<^verbatim>\<open>Math.random()\<close> returning 0.5 and then 0.25: the strings \<^verbatim>\<open>"0.i"\<close> and \<^verbatim>\<open>"0.9"\<close> in base
  36, both cut to the empty string by \<^verbatim>\<open>substring(7)\<close>.
\<close>

definition draw_half :: sync_env where
  "draw_half = \<lparr>random_id = [], object_url = ''blob:1'', setup_error = None\<rparr>"

definition draw_quarter :: sync_env where
  "draw_quarter = \<lparr>random_id = [], object_url = ''blob:2'', setup_error = None\<rparr>"

definition two_cards :: "ProcessedImage list" where
  "two_cards = [newImage ''k3x9q'' ''receipt.png'' ''blob:1'',
                newImage ''p07fz'' ''scan.v2.png'' ''blob:2'']"

definition receipt_reading :: App where
  "receipt_reading = run [Drop [receipt] draw1] init"

definition receipt_streaming :: App where
  "receipt_streaming =
     run [Drop [receipt] draw1, FileLoad 0, StreamOpen 0, StreamChunk 0 ''Total''] init"

definition receipt_done :: App where
  "receipt_done =
     run [Drop [receipt] draw1, FileLoad 0, StreamOpen 0, StreamChunk 0 ''Total 12'',
          StreamEnd 0] init"

definition both_done :: App where
  "both_done =
     run [Drop [receipt, scan] draw1, FileLoad 0, StreamOpen 0, StreamChunk 0 ''Total 12'',
          StreamEnd 0, Tick 1000, Timeout 0 draw2, FileLoad 0, StreamOpen 0,
          StreamChunk 0 ''Page 2'', StreamEnd 0, ClickCard 1] init"


definition draw3 :: sync_env where
  "draw3 = \<lparr>random_id = ''0v1ab'', object_url = ''blob:3'', setup_error = None\<rparr>"

definition receipt_waited :: App where
  "receipt_waited =
     run [Drop [receipt, scan] draw1, FileLoad 0, StreamOpen 0, StreamChunk 0 ''Total 12'',
          StreamEnd 0, Tick 1000] init"

definition whole_session :: "stimulus list" where
  "whole_session =
     [Drop [receipt, scan] draw1, FileLoad 0, StreamOpen 0, StreamChunk 0 ''Total 12'',
      StreamEnd 0, Tick 1000, Timeout 0 draw2, FileLoad 0, StreamOpen 0,
      StreamChunk 0 ''Page 2'', StreamEnd 0, Tick 1000, Timeout 0 draw3]"

definition first_part :: "stimulus list" where
  "first_part =
     [Drop [receipt, scan] draw1, FileLoad 0, StreamOpen 0, StreamChunk 0 ''Total 12'',
      StreamEnd 0]"

definition second_part :: "stimulus list" where
  "second_part =
     [Tick 1000, Timeout 0 draw2, FileLoad 0, StreamOpen 0, StreamChunk 0 ''Page 2'',
      StreamEnd 0]"

definition colliding_first :: "stimulus list" where
  "colliding_first =
     [Drop [receipt, scan] draw_half, FileLoad 0, StreamOpen 0, StreamChunk 0 ''Total 12'',
      StreamEnd 0]"

definition colliding_second :: "stimulus list" where
  "colliding_second =
     [Tick 1000, Timeout 0 draw_quarter, FileLoad 0, StreamOpen 0, StreamChunk 0 ''Page 2'']"

definition receipt_failed :: App where
  "receipt_failed = step (StreamThrow 0 ''quota'') receipt_streaming"

text \<open>Two drops of one file each; both files are read before any answer arrives.\<close>

definition two_batches :: App where
  "two_batches = run [Drop [receipt] draw1, FileLoad 0, Drop [scan] draw2, FileLoad 1] init"

section \<open>Lists, file names\<close>

lemma count_list_filter:
  "count_list (filter P xs) r = (if P r then count_list xs r else 0)"
  by (induction xs) auto

lemma filter_distinct_nth:
  "distinct (map f xs) \<Longrightarrow> k < length xs \<Longrightarrow>
   filter (\<lambda>r. f r \<noteq> f (xs ! k)) xs = take k xs @ drop (Suc k) xs"
proof (induction xs arbitrary: k)
  case Nil
  then show ?case by simp
next
  case (Cons x xs)
  show ?case
  proof (cases k)
    case 0
    have "\<forall>r \<in> set xs. f r \<noteq> f x"
      using Cons.prems(1) by (simp add: image_iff) metis
    then have "filter (\<lambda>r. f r \<noteq> f x) xs = xs"
      by (simp add: filter_id_conv)
    then show ?thesis using 0 by simp
  next
    case (Suc j)
    then have j: "j < length xs" using Cons.prems(2) by simp
    then have "f x \<noteq> f (xs ! j)" using Cons.prems(1) by auto
    then show ?thesis using Suc Cons.IH[of j] Cons.prems(1) j by simp
  qed
qed

lemma split_js_not_Nil: "split_js sep cs \<noteq> []"
  by (induction cs) (auto split: list.splits)

lemma split_js_first:
  "first_piece (split_js sep cs) = takeWhile (\<lambda>c. c \<noteq> sep) cs"
proof (induction cs)
  case Nil
  show ?case by (simp add: first_piece_def)
next
  case (Cons c cs)
  then show ?case
    using split_js_not_Nil[of sep cs]
    by (cases "split_js sep cs") (auto simp: first_piece_def)
qed

lemma stem_one_dot:
  assumes "length (filter (\<lambda>c. c = CHR ''.'') n) \<le> 1"
  shows "stem n = takeWhile (\<lambda>c. c \<noteq> CHR ''.'') n"
proof (cases "CHR ''.'' \<in> set n")
  case False
  then have "takeWhile (\<lambda>c. c \<noteq> CHR ''.'') n = n"
    by (auto simp: takeWhile_eq_all_conv)
  with False show ?thesis by (simp only: stem_def if_False)
next
  case True
  define a where "a = takeWhile (\<lambda>c. c \<noteq> CHR ''.'') n"
  define d where "d = dropWhile (\<lambda>c. c \<noteq> CHR ''.'') n"
  have n: "n = a @ d" by (simp add: a_def d_def)
  have "d \<noteq> []" using True by (auto simp: d_def dropWhile_eq_Nil_conv)
  then obtain b where d: "d = CHR ''.'' # b"
    using hd_dropWhile[of "\<lambda>c. c \<noteq> CHR ''.''" n] by (cases d) (auto simp: d_def)
  have "filter (\<lambda>c. c = CHR ''.'') b = []"
    using assms unfolding n d by (auto split: if_splits)
  then have nodot_b: "\<And>x. x \<in> set b \<Longrightarrow> x \<noteq> CHR ''.''"
    by (auto simp: filter_empty_conv)
  have "dropWhile (\<lambda>c. c \<noteq> CHR ''.'') (rev n) = CHR ''.'' # rev a"
    unfolding n d
    using nodot_b dropWhile_append2[of "rev b" "\<lambda>c. c \<noteq> CHR ''.''" "CHR ''.'' # rev a"]
    by simp
  then have "stem n = a" using True by (simp add: stem_def)
  then show ?thesis by (simp add: a_def)
qed

section \<open>The order of the records\<close>

text \<open>
  Claim C10. Every operation on the list keeps the order of the records it does not
  target. Taking a file in appends one record behind the others. The updates for a chunk,
  for the end of the stream and for the two kinds of failure keep the length and the id at
  every position, and leave each record with another id exactly as it was. Removal yields a
  subsequence of the list in which no record with the id is left and every other record
  occurs as often as before.
\<close>

theorem store_operations_keep_order:
  "take (length prev) (appendImage i fname url prev) = prev
   \<and> length (appendImage i fname url prev) = Suc (length prev)
   \<and> (\<forall>upd \<in> {setText i fullText, setDone i, setFailed i, setReadError i}.
        length (upd prev) = length prev
        \<and> map id_img (upd prev) = map id_img prev
        \<and> (\<forall>k < length prev. id_img (prev ! k) \<noteq> i \<longrightarrow> upd prev ! k = prev ! k))
   \<and> subseq (dropImage i prev) prev
   \<and> (\<forall>r. count_list (dropImage i prev) r = (if id_img r = i then 0 else count_list prev r))"
proof -
  have a: "take (length prev) (appendImage i fname url prev) = prev"
    "length (appendImage i fname url prev) = Suc (length prev)"
    by (simp_all add: appendImage_def)
  have u: "length (upd prev) = length prev
        \<and> map id_img (upd prev) = map id_img prev
        \<and> (\<forall>k < length prev. id_img (prev ! k) \<noteq> i \<longrightarrow> upd prev ! k = prev ! k)"
    if "upd \<in> {setText i fullText, setDone i, setFailed i, setReadError i}" for upd
    using that by (auto simp: setText_def setDone_def setFailed_def setReadError_def)
  have d: "subseq (dropImage i prev) prev" by (simp add: dropImage_def)
  have c: "count_list (dropImage i prev) r = (if id_img r = i then 0 else count_list prev r)" for r
    by (simp add: dropImage_def count_list_filter)
  show ?thesis using a u d c by blast
qed

text \<open>
  The statement at a list of two records, with the id of the first as the target.
\<close>

theorem store_operations_keep_order_witness:
  "setText ''k3x9q'' ''Total'' \<in>
      {setText ''k3x9q'' ''Total'', setDone ''k3x9q'', setFailed ''k3x9q'', setReadError ''k3x9q''}
   \<and> 1 < length two_cards
   \<and> id_img (two_cards ! 1) \<noteq> ''k3x9q''
   \<and> setText ''k3x9q'' ''Total'' two_cards ! 1 = two_cards ! 1
   \<and> map id_img (setText ''k3x9q'' ''Total'' two_cards) = [''k3x9q'', ''p07fz'']
   \<and> subseq (dropImage ''k3x9q'' two_cards) two_cards
   \<and> count_list (dropImage ''k3x9q'' two_cards) (two_cards ! 1) = 1"
  using store_operations_keep_order[of two_cards "''k3x9q''" "[]" "[]" "''Total''"]
  by (simp add: two_cards_def newImage_def)

section \<open>Projections of the helpers\<close>

lemma upd_task_simps [simp]:
  "processedImages (upd_task b f s) = processedImages s"
  "selectedImage (upd_task b f s) = selectedImage s"
  "objectUrls (upd_task b f s) = objectUrls s"
  "downloads (upd_task b f s) = downloads s"
  "now (upd_task b f s) = now s"
  "tasks (upd_task b f s) = (tasks s)[b := f (tasks s ! b)]"
  by (simp_all add: upd_task_def)

lemma settle_simps [simp]:
  "processedImages (settle b ok s) = processedImages s"
  "selectedImage (settle b ok s) = selectedImage s"
  "objectUrls (settle b ok s) = objectUrls s"
  "downloads (settle b ok s) = downloads s"
  "now (settle b ok s) = now s"
  "tasks (settle b ok s) =
     (tasks s)[b := (tasks s ! b)\<lparr>settled := settled (tasks s ! b) @ [(now s, ok)],
                                   phase := Delaying (now s + 1000)\<rparr>]"
  by (simp_all add: settle_def delay_def)

lemma rejected_simps [simp]:
  "processedImages (rejected b raw s) = processedImages s"
  "selectedImage (rejected b raw s) = selectedImage s"
  "objectUrls (rejected b raw s) = objectUrls s"
  "downloads (rejected b raw s) = downloads s"
  "now (rejected b raw s) = now s"
  "tasks (rejected b raw s) =
     (tasks s)[b := (tasks s ! b)\<lparr>settled := settled (tasks s ! b) @ [(now s, False)],
                                   phase := Delaying (now s + 1000)\<rparr>]"
  by (simp_all add: rejected_def)

lemma resolved_simps [simp]:
  "processedImages (resolved b s) = processedImages s"
  "selectedImage (resolved b s) = selectedImage s"
  "objectUrls (resolved b s) = objectUrls s"
  "downloads (resolved b s) = downloads s"
  "now (resolved b s) = now s"
  "tasks (resolved b s) =
     (tasks s)[b := (tasks s ! b)\<lparr>settled := settled (tasks s ! b) @ [(now s, True)],
                                   phase := Delaying (now s + 1000)\<rparr>]"
  by (simp_all add: resolved_def)

section \<open>Failures\<close>

lemma setReadError_marks:
  assumes "r \<in> set (setReadError i prev)" and "id_img r = i"
  shows "\<not> isProcessing r \<and> error r = Some ''File reading error''"
proof -
  from assms(1) obtain x where "x \<in> set prev" and r: "r = (if id_img x = i
                then x\<lparr>isProcessing := False, error := Some ''File reading error''\<rparr>
                else x)"
    unfolding setReadError_def by auto
  show ?thesis
  proof (cases "id_img x = i")
    case True
    then show ?thesis using r by simp
  next
    case False
    then show ?thesis using r assms(2) by simp
  qed
qed

lemma setFailed_marks:
  assumes "r \<in> set (setFailed i prev)" and "id_img r = i"
  shows "\<not> isProcessing r \<and> error r = Some ''Failed to process image''"
proof -
  from assms(1) obtain x where "x \<in> set prev" and r: "r = (if id_img x = i
                then x\<lparr>isProcessing := False, error := Some ''Failed to process image''\<rparr>
                else x)"
    unfolding setFailed_def by auto
  show ?thesis
  proof (cases "id_img x = i")
    case True
    then show ?thesis using r by simp
  next
    case False
    then show ?thesis using r assms(2) by simp
  qed
qed

lemma onerror_store:
  "b < length (tasks s) \<Longrightarrow> phase (tasks s ! b) = Reading i \<Longrightarrow>
   processedImages (step (FileError b) s) = setReadError i (processedImages s)"
  by (simp add: reader_onerror_def)

lemma catch_store:
  "b < length (tasks s) \<Longrightarrow>
   phase (tasks s ! b) = Requesting i \<or> phase (tasks s ! b) = Streaming i fullText \<Longrightarrow>
   processedImages (step (StreamThrow b raw) s) = setFailed i (processedImages s)
   \<and> selectedImage (step (StreamThrow b raw) s) = selectedImage s"
  by (auto simp add: stream_catch_def)

lemma setup_failure_store:
  "setup_error env = Some raw \<Longrightarrow>
   processedImages (processImage b f env s) =
     setFailed (random_id env)
       (appendImage (random_id env) (file_name f) (object_url env) (processedImages s))
   \<and> selectedImage (processImage b f env s) = selectedImage s"
  by (simp add: processImage_def Let_def)

text \<open>
  Claim C5, as amended. A failure writes a message that depends on where it happened and
  on nothing else. When the reader fails, every record with the id of the file stops
  processing with the error \<^verbatim>\<open>File reading error\<close>. When the request or the stream fails, or
  when the set-up of the reader throws, every record with the id stops processing with the
  error \<^verbatim>\<open>Failed to process image\<close>. The error that was thrown reaches neither the list of
  records nor the selection: two different errors give the same list and selection.
\<close>

theorem failure_sets_fixed_message:
  assumes "b < length (tasks s)"
  shows
   "(phase (tasks s ! b) = Reading i \<longrightarrow>
       (\<forall>r \<in> set (processedImages (step (FileError b) s)).
           id_img r = i \<longrightarrow> \<not> isProcessing r \<and> error r = Some ''File reading error''))
    \<and> (phase (tasks s ! b) = Requesting i \<or> phase (tasks s ! b) = Streaming i fullText \<longrightarrow>
       (\<forall>r \<in> set (processedImages (step (StreamThrow b raw) s)).
           id_img r = i \<longrightarrow> \<not> isProcessing r \<and> error r = Some ''Failed to process image'')
       \<and> processedImages (step (StreamThrow b raw) s) = processedImages (step (StreamThrow b raw') s)
       \<and> selectedImage (step (StreamThrow b raw) s) = selectedImage (step (StreamThrow b raw') s))
    \<and> (setup_error env = Some raw \<longrightarrow>
       (\<forall>r \<in> set (processedImages (processImage b f env s)).
           id_img r = random_id env \<longrightarrow>
           \<not> isProcessing r \<and> error r = Some ''Failed to process image'')
       \<and> processedImages (processImage b f env s)
           = processedImages (processImage b f (env\<lparr>setup_error := Some raw'\<rparr>) s)
       \<and> selectedImage (processImage b f env s)
           = selectedImage (processImage b f (env\<lparr>setup_error := Some raw'\<rparr>) s))"
proof (intro conjI impI)
  assume "phase (tasks s ! b) = Reading i"
  then show "\<forall>r \<in> set (processedImages (step (FileError b) s)).
           id_img r = i \<longrightarrow> \<not> isProcessing r \<and> error r = Some ''File reading error''"
    using assms setReadError_marks by (simp only: onerror_store) blast
next
  assume p: "phase (tasks s ! b) = Requesting i \<or> phase (tasks s ! b) = Streaming i fullText"
  show "\<forall>r \<in> set (processedImages (step (StreamThrow b raw) s)).
           id_img r = i \<longrightarrow> \<not> isProcessing r \<and> error r = Some ''Failed to process image''"
    using catch_store[OF assms p, of raw] setFailed_marks by metis
  show "processedImages (step (StreamThrow b raw) s) = processedImages (step (StreamThrow b raw') s)"
    using catch_store[OF assms p, of raw] catch_store[OF assms p, of raw'] by simp
  show "selectedImage (step (StreamThrow b raw) s) = selectedImage (step (StreamThrow b raw') s)"
    using catch_store[OF assms p, of raw] catch_store[OF assms p, of raw'] by simp
next
  assume e: "setup_error env = Some raw"
  have e': "setup_error (env\<lparr>setup_error := Some raw'\<rparr>) = Some raw'" by simp
  show "\<forall>r \<in> set (processedImages (processImage b f env s)).
           id_img r = random_id env \<longrightarrow>
           \<not> isProcessing r \<and> error r = Some ''Failed to process image''"
    using setup_failure_store[OF e, of b f s] setFailed_marks by metis
  show "processedImages (processImage b f env s)
           = processedImages (processImage b f (env\<lparr>setup_error := Some raw'\<rparr>) s)"
    using setup_failure_store[OF e, of b f s] setup_failure_store[OF e', of b f s] by simp
  show "selectedImage (processImage b f env s)
           = selectedImage (processImage b f (env\<lparr>setup_error := Some raw'\<rparr>) s)"
    using setup_failure_store[OF e, of b f s] setup_failure_store[OF e', of b f s] by simp
qed

text \<open>
  The statement at a call that waits for the reader, at a call that reads the stream, and
  at a set-up that throws.
\<close>

theorem failure_sets_fixed_message_witness:
  "0 < length (tasks receipt_reading)
   \<and> phase (tasks receipt_reading ! 0) = Reading ''k3x9q''
   \<and> id_img (processedImages (step (FileError 0) receipt_reading) ! 0) = ''k3x9q''
   \<and> error (processedImages (step (FileError 0) receipt_reading) ! 0)
        = Some ''File reading error''
   \<and> 0 < length (tasks receipt_streaming)
   \<and> phase (tasks receipt_streaming ! 0) = Streaming ''k3x9q'' ''Total''
   \<and> id_img (processedImages (step (StreamThrow 0 ''quota'') receipt_streaming) ! 0) = ''k3x9q''
   \<and> error (processedImages (step (StreamThrow 0 ''quota'') receipt_streaming) ! 0)
        = Some ''Failed to process image''
   \<and> setup_error (draw2\<lparr>setup_error := Some ''no key''\<rparr>) = Some ''no key''
   \<and> map error (processedImages
        (processImage 0 scan (draw2\<lparr>setup_error := Some ''no key''\<rparr>) receipt_streaming))
        = map error (processedImages
        (processImage 0 scan (draw2\<lparr>setup_error := Some ''denied''\<rparr>) receipt_streaming))"
proof -
  have r1: "0 < length (tasks receipt_reading)" by code_simp
  have r2: "phase (tasks receipt_reading ! 0) = Reading ''k3x9q''" by code_simp
  have r3: "processedImages (step (FileError 0) receipt_reading) ! 0
              \<in> set (processedImages (step (FileError 0) receipt_reading))" by code_simp
  have r4: "id_img (processedImages (step (FileError 0) receipt_reading) ! 0) = ''k3x9q''"
    by code_simp
  have s1: "0 < length (tasks receipt_streaming)" by code_simp
  have s2: "phase (tasks receipt_streaming ! 0) = Streaming ''k3x9q'' ''Total''" by code_simp
  have s3: "processedImages (step (StreamThrow 0 ''quota'') receipt_streaming) ! 0
              \<in> set (processedImages (step (StreamThrow 0 ''quota'') receipt_streaming))"
    by code_simp
  have s4: "id_img (processedImages (step (StreamThrow 0 ''quota'') receipt_streaming) ! 0)
              = ''k3x9q''" by code_simp
  have e: "setup_error (draw2\<lparr>setup_error := Some ''no key''\<rparr>) = Some ''no key''" by simp
  note a = failure_sets_fixed_message[where b = 0 and s = receipt_reading and i = "''k3x9q''", OF r1]
  note b = failure_sets_fixed_message[where b = 0 and s = receipt_streaming and i = "''k3x9q''"
             and fullText = "''Total''" and raw = "''quota''" and f = scan
             and env = "draw2\<lparr>setup_error := Some ''no key''\<rparr>", OF s1]
  note b' = failure_sets_fixed_message[where b = 0 and s = receipt_streaming and f = scan
             and raw = "''no key''" and raw' = "''denied''"
             and env = "draw2\<lparr>setup_error := Some ''no key''\<rparr>", OF s1]
  have c1: "error (processedImages (step (FileError 0) receipt_reading) ! 0)
        = Some ''File reading error''"
    using a r2 r3 r4 by blast
  have c2: "error (processedImages (step (StreamThrow 0 ''quota'') receipt_streaming) ! 0)
        = Some ''Failed to process image''"
    using b s2 s3 s4 by blast
  have c3: "processedImages
        (processImage 0 scan (draw2\<lparr>setup_error := Some ''no key''\<rparr>) receipt_streaming)
        = processedImages
        (processImage 0 scan (draw2\<lparr>setup_error := Some ''denied''\<rparr>) receipt_streaming)"
    using b' e by simp
  show ?thesis using r1 r2 r4 c1 s1 s2 s4 c2 e c3 by simp
qed

text \<open>
  The claim as stated fails: a file that cannot be read and a file whose request fails
  end with two different messages.
\<close>

theorem two_messages_counterexample:
  "error (processedImages (run [Drop [receipt] draw1, FileError 0] init) ! 0)
     = Some ''File reading error''
   \<and> error (processedImages (run [Drop [receipt] draw1, FileLoad 0, StreamThrow 0 ''429''] init) ! 0)
     = Some ''Failed to process image''"
  by code_simp

section \<open>Download\<close>

text \<open>
  Claim C7, as amended. The download button of a record that is not processing hands the
  browser one more file: its type is \<^verbatim>\<open>text/plain\<close>, its content is the text the record
  holds at that moment, and its name is the part of the record's name before the first
  dot, followed by \<^verbatim>\<open>-extracted.txt\<close>. For a name with at most one dot that part is the
  stem.
\<close>

theorem download_action:
  assumes "k < length (processedImages s)" and "\<not> isProcessing (processedImages s ! k)"
  shows "downloads (step (ClickDownload k) s) =
           downloads s @
             [\<lparr>dl_name = takeWhile (\<lambda>c. c \<noteq> CHR ''.'') (name (processedImages s ! k))
                          @ ''-extracted.txt'',
               dl_type = ''text/plain'',
               dl_content = text_img (processedImages s ! k)\<rparr>]
         \<and> (length (filter (\<lambda>c. c = CHR ''.'') (name (processedImages s ! k))) \<le> 1 \<longrightarrow>
              dl_name (last (downloads (step (ClickDownload k) s)))
                = stem (name (processedImages s ! k)) @ ''-extracted.txt'')"
  using assms
  by (simp add: click_download_def downloadText_def split_js_first stem_one_dot)

text \<open>
  The statement at the record of \<^verbatim>\<open>receipt.png\<close> after its stream has ended.
\<close>

theorem download_action_witness:
  "0 < length (processedImages receipt_done)
   \<and> \<not> isProcessing (processedImages receipt_done ! 0)
   \<and> name (processedImages receipt_done ! 0) = ''receipt.png''
   \<and> text_img (processedImages receipt_done ! 0) = ''Total 12''
   \<and> downloads (step (ClickDownload 0) receipt_done) =
        [\<lparr>dl_name = ''receipt-extracted.txt'', dl_type = ''text/plain'',
          dl_content = ''Total 12''\<rparr>]
   \<and> stem ''receipt.png'' = ''receipt''"
proof -
  have h1: "0 < length (processedImages receipt_done)" by code_simp
  have h2: "\<not> isProcessing (processedImages receipt_done ! 0)" by code_simp
  have n: "name (processedImages receipt_done ! 0) = ''receipt.png''" by code_simp
  have t: "text_img (processedImages receipt_done ! 0) = ''Total 12''" by code_simp
  have d: "downloads receipt_done = []" by code_simp
  have st: "stem ''receipt.png'' = ''receipt''" by code_simp
  show ?thesis
    using download_action[OF h1 h2] h1 h2 n t d st by simp
qed

text \<open>
  The claim as stated fails: for \<^verbatim>\<open>scan.v2.png\<close> the stem is \<^verbatim>\<open>scan.v2\<close>, and the file offered is
  named after \<^verbatim>\<open>scan\<close>.
\<close>

theorem download_name_counterexample:
  "map dl_name (downloads (run [Drop [scan] draw1, FileLoad 0, StreamOpen 0,
       StreamChunk 0 ''Total 12'', StreamEnd 0, ClickDownload 0] init)) = [''scan-extracted.txt'']
   \<and> stem (file_name scan) @ ''-extracted.txt'' = ''scan.v2-extracted.txt''"
  by code_simp

section \<open>Removal\<close>

text \<open>
  Claim C8, as amended. \<^verbatim>\<open>removeImage\<close> leaves a subsequence of the list in which no record
  with the id remains and every other record occurs as often as before; when the ids of the
  list are distinct this is the list without the one record that had the id. The selection
  is cleared when the selected copy has the id and is kept otherwise. The live object URLs
  are the same before and after: the preview of the removed record is not revoked.
\<close>

theorem removeImage_effect:
  "(\<forall>r. count_list (processedImages (removeImage i s)) r =
          (if id_img r = i then 0 else count_list (processedImages s) r))
   \<and> subseq (processedImages (removeImage i s)) (processedImages s)
   \<and> (\<forall>k. distinct (map id_img (processedImages s)) \<and> k < length (processedImages s)
            \<and> id_img (processedImages s ! k) = i \<longrightarrow>
          processedImages (removeImage i s) =
            take k (processedImages s) @ drop (Suc k) (processedImages s))
   \<and> selectedImage (removeImage i s) =
        (case selectedImage s of
           None \<Rightarrow> None
         | Some sel \<Rightarrow> if id_img sel = i then None else Some sel)
   \<and> objectUrls (removeImage i s) = objectUrls s"
proof -
  have st: "processedImages (removeImage i s) = dropImage i (processedImages s)"
    by (simp add: removeImage_def setSelectedImage_def Let_def)
  have c: "count_list (processedImages (removeImage i s)) r =
          (if id_img r = i then 0 else count_list (processedImages s) r)" for r
    by (simp add: st dropImage_def count_list_filter)
  have sub: "subseq (processedImages (removeImage i s)) (processedImages s)"
    by (simp add: st dropImage_def)
  have one: "processedImages (removeImage i s) =
            take k (processedImages s) @ drop (Suc k) (processedImages s)"
    if "distinct (map id_img (processedImages s)) \<and> k < length (processedImages s)
            \<and> id_img (processedImages s ! k) = i" for k
    using that filter_distinct_nth[of id_img "processedImages s" k]
    by (auto simp: st dropImage_def)
  have sel: "selectedImage (removeImage i s) =
        (case selectedImage s of
           None \<Rightarrow> None
         | Some sel \<Rightarrow> if id_img sel = i then None else Some sel)"
    by (simp add: removeImage_def setSelectedImage_def Let_def split: option.splits)
  have urls: "objectUrls (removeImage i s) = objectUrls s"
    by (simp add: removeImage_def setSelectedImage_def Let_def)
  show ?thesis using c sub one sel urls by blast
qed

text \<open>
  The statement at a list of two finished records, the second of which is selected.
\<close>

theorem removeImage_effect_witness:
  "distinct (map id_img (processedImages both_done))
   \<and> 1 < length (processedImages both_done)
   \<and> id_img (processedImages both_done ! 1) = ''p07fz''
   \<and> map_option id_img (selectedImage both_done) = Some ''p07fz''
   \<and> processedImages (removeImage ''p07fz'' both_done) = take 1 (processedImages both_done)
   \<and> selectedImage (removeImage ''p07fz'' both_done) = None
   \<and> selectedImage (removeImage ''k3x9q'' both_done) = selectedImage both_done
   \<and> objectUrls (removeImage ''p07fz'' both_done) = objectUrls both_done"
proof -
  have h: "distinct (map id_img (processedImages both_done))"
    "1 < length (processedImages both_done)"
    "id_img (processedImages both_done ! 1) = ''p07fz''"
    by code_simp+
  have l: "length (processedImages both_done) = 2" by code_simp
  have sel: "map_option id_img (selectedImage both_done) = Some ''p07fz''" by code_simp
  note t = removeImage_effect[of "''p07fz''" both_done]
  note t' = removeImage_effect[of "''k3x9q''" both_done]
  have a: "processedImages (removeImage ''p07fz'' both_done)
             = take 1 (processedImages both_done) @ drop (Suc 1) (processedImages both_done)"
    using t h by blast
  have b: "selectedImage (removeImage ''p07fz'' both_done) = None"
    using t sel by (auto split: option.splits)
  have c: "selectedImage (removeImage ''k3x9q'' both_done) = selectedImage both_done"
    using t' sel by (auto split: option.splits)
  show ?thesis using h sel a b c t l by simp
qed

text \<open>
  The claim as stated fails: after the only record has been removed, its preview URL is
  still among the live object URLs.
\<close>

theorem preview_not_freed_counterexample:
  "processedImages (run [Drop [receipt] draw1, FileLoad 0, StreamOpen 0,
       StreamChunk 0 ''Total 12'', StreamEnd 0, ClickRemove 0] init) = []
   \<and> objectUrls (run [Drop [receipt] draw1, FileLoad 0, StreamOpen 0,
       StreamChunk 0 ''Total 12'', StreamEnd 0, ClickRemove 0] init) = [''blob:1'']
   \<and> object_url draw1 = ''blob:1''"
  by code_simp

section \<open>The detail pane\<close>

text \<open>
  Claim C9, on the code. The card of \<^verbatim>\<open>receipt.png\<close> is clicked after the chunk
  \<^verbatim>\<open>Total\<close>; one more chunk arrives and the stream ends. The list holds the whole text; the
  pane, which renders the copy kept in \<^verbatim>\<open>selectedImage\<close>, still shows the text of the
  moment of the click.
\<close>

theorem stale_detail_pane:
  "detailPane (run [Drop [receipt] draw1, FileLoad 0, StreamOpen 0, StreamChunk 0 ''Total'',
                    ClickCard 0, StreamChunk 0 '' 12'', StreamEnd 0] init)
     = Some (''receipt.png'', ''Total'')
   \<and> map text_img (processedImages
        (run [Drop [receipt] draw1, FileLoad 0, StreamOpen 0, StreamChunk 0 ''Total'',
              ClickCard 0, StreamChunk 0 '' 12'', StreamEnd 0] init))
     = [''Total 12'']"
  by code_simp

section \<open>One file after the other\<close>

lemma task_inv_mono: "task_inv tm t \<Longrightarrow> tm \<le> tm' \<Longrightarrow> task_inv tm' t"
  unfolding task_inv_def by (auto intro: order_trans)

lemma task_inv_load:
  assumes "task_inv tm t" and "phase t = Reading i"
  shows "task_inv tm (t\<lparr>phase := Requesting i, requested := requested t @ [(tm, idx t)]\<rparr>)"
  using assms unfolding task_inv_def by auto

lemma task_inv_open:
  assumes "task_inv tm t" and "phase t = Requesting i"
  shows "task_inv tm (t\<lparr>phase := Streaming i []\<rparr>)"
  using assms unfolding task_inv_def by auto

lemma task_inv_chunk:
  assumes "task_inv tm t" and "phase t = Streaming i fullText"
  shows "task_inv tm (t\<lparr>phase := Streaming i fullText'\<rparr>)"
  using assms unfolding task_inv_def by auto

lemma task_inv_settle:
  assumes "task_inv tm t" and "phase t = Reading i"
  shows "task_inv tm (t\<lparr>settled := settled t @ [(tm, ok)], phase := Delaying (tm + 1000)\<rparr>)"
  using assms unfolding task_inv_def by (auto simp: nth_append)

lemma task_inv_answer:
  assumes "task_inv tm t" and "phase t = Requesting i \<or> phase t = Streaming i fullText"
  shows "task_inv tm (t\<lparr>answered := answered t @ [tm],
                         settled := settled t @ [(tm, ok)], phase := Delaying (tm + 1000)\<rparr>)"
  using assms unfolding task_inv_def by (auto simp: nth_append)

lemma task_inv_begin:
  assumes "task_inv tm t" and "phase t = Delaying due" and "due \<le> tm"
    and "Suc (idx t) < length (files t)"
  shows "task_inv tm (t\<lparr>idx := Suc (idx t),
                         begun := begun t @ [(tm, files t ! Suc (idx t), i)],
                         phase := Reading i\<rparr>)"
  using assms unfolding task_inv_def
  by (auto simp: nth_append take_Suc_conv_app_nth less_Suc_eq)

lemma task_inv_begin_failed:
  assumes "task_inv tm t" and "phase t = Delaying due" and "due \<le> tm"
    and "Suc (idx t) < length (files t)"
  shows "task_inv tm (t\<lparr>idx := Suc (idx t),
                         begun := begun t @ [(tm, files t ! Suc (idx t), i)],
                         settled := settled t @ [(tm, False)],
                         phase := Delaying (tm + 1000)\<rparr>)"
  using assms unfolding task_inv_def
  by (auto simp: nth_append take_Suc_conv_app_nth less_Suc_eq)

lemma task_inv_finish:
  assumes "task_inv tm t" and "phase t = Delaying due"
    and "\<not> Suc (idx t) < length (files t)"
  shows "task_inv tm (t\<lparr>idx := Suc (idx t), phase := Finished\<rparr>)"
  using assms unfolding task_inv_def by auto

lemma task_inv_first:
  "task_inv tm \<lparr>files = f # fs, idx = 0, phase = Reading i, begun = [(tm, f, i)],
               settled = [], requested = [], answered = []\<rparr>"
  "task_inv tm \<lparr>files = f # fs, idx = 0, phase = Delaying (tm + 1000), begun = [(tm, f, i)],
               settled = [(tm, False)], requested = [], answered = []\<rparr>"
  "task_inv tm \<lparr>files = [], idx = 0, phase = Finished, begun = [],
               settled = [], requested = [], answered = []\<rparr>"
  unfolding task_inv_def by auto

lemma all_inv_update:
  assumes "all_inv s" and "b < length (tasks s)" and "task_inv (now s) t'"
    and "tasks s' = (tasks s)[b := t']" and "now s' = now s"
  shows "all_inv s'"
  using assms unfolding all_inv_def by (auto simp: nth_list_update)

lemma all_inv_same:
  "all_inv s \<Longrightarrow> tasks s' = tasks s \<Longrightarrow> now s' = now s \<Longrightarrow> all_inv s'"
  unfolding all_inv_def by simp

lemma all_inv_reader_onload:
  assumes "all_inv s"
  shows "all_inv (reader_onload b s)"
proof (cases "b < length (tasks s)")
  case False
  then show ?thesis using assms by (simp add: reader_onload_def)
next
  case True
  then have inv: "task_inv (now s) (tasks s ! b)" using assms by (simp add: all_inv_def)
  show ?thesis
  proof (cases "phase (tasks s ! b)")
    case (Reading i)
    show ?thesis
      by (rule all_inv_update[OF assms True task_inv_load[OF inv Reading]])
         (simp_all add: reader_onload_def True Reading)
  qed (use assms True in \<open>simp_all add: reader_onload_def\<close>)
qed

lemma all_inv_reader_onerror:
  assumes "all_inv s"
  shows "all_inv (reader_onerror b s)"
proof (cases "b < length (tasks s)")
  case False
  then show ?thesis using assms by (simp add: reader_onerror_def)
next
  case True
  then have inv: "task_inv (now s) (tasks s ! b)" using assms by (simp add: all_inv_def)
  show ?thesis
  proof (cases "phase (tasks s ! b)")
    case (Reading i)
    show ?thesis
      by (rule all_inv_update[OF assms True task_inv_settle[OF inv Reading, of False]])
         (simp_all add: reader_onerror_def True Reading)
  qed (use assms True in \<open>simp_all add: reader_onerror_def\<close>)
qed

lemma all_inv_stream_open:
  assumes "all_inv s"
  shows "all_inv (stream_open b s)"
proof (cases "b < length (tasks s)")
  case False
  then show ?thesis using assms by (simp add: stream_open_def)
next
  case True
  then have inv: "task_inv (now s) (tasks s ! b)" using assms by (simp add: all_inv_def)
  show ?thesis
  proof (cases "phase (tasks s ! b)")
    case (Requesting i)
    show ?thesis
      by (rule all_inv_update[OF assms True task_inv_open[OF inv Requesting]])
         (simp_all add: stream_open_def True Requesting)
  qed (use assms True in \<open>simp_all add: stream_open_def\<close>)
qed

lemma all_inv_stream_chunk:
  assumes "all_inv s"
  shows "all_inv (stream_chunk b c s)"
proof (cases "b < length (tasks s)")
  case False
  then show ?thesis using assms by (simp add: stream_chunk_def)
next
  case True
  then have inv: "task_inv (now s) (tasks s ! b)" using assms by (simp add: all_inv_def)
  show ?thesis
  proof (cases "phase (tasks s ! b)")
    case (Streaming i fullText)
    show ?thesis
      by (rule all_inv_update[OF assms True task_inv_chunk[OF inv Streaming, of "fullText @ c"]])
         (simp_all add: stream_chunk_def True Streaming)
  qed (use assms True in \<open>simp_all add: stream_chunk_def\<close>)
qed

lemma all_inv_stream_end:
  assumes "all_inv s"
  shows "all_inv (stream_end b s)"
proof (cases "b < length (tasks s)")
  case False
  then show ?thesis using assms by (simp add: stream_end_def)
next
  case True
  then have inv: "task_inv (now s) (tasks s ! b)" using assms by (simp add: all_inv_def)
  show ?thesis
  proof (cases "phase (tasks s ! b)")
    case (Streaming i fullText)
    then have p: "phase (tasks s ! b) = Requesting i \<or> phase (tasks s ! b) = Streaming i fullText"
      by simp
    show ?thesis
      by (rule all_inv_update[OF assms True task_inv_answer[OF inv p, of True]])
         (simp_all add: stream_end_def True Streaming)
  qed (use assms True in \<open>simp_all add: stream_end_def\<close>)
qed

lemma all_inv_stream_catch:
  assumes "all_inv s"
  shows "all_inv (stream_catch b raw s)"
proof (cases "b < length (tasks s)")
  case False
  then show ?thesis using assms by (simp add: stream_catch_def)
next
  case True
  then have inv: "task_inv (now s) (tasks s ! b)" using assms by (simp add: all_inv_def)
  show ?thesis
  proof (cases "phase (tasks s ! b)")
    case (Requesting i)
    then have p: "phase (tasks s ! b) = Requesting i \<or> phase (tasks s ! b) = Streaming i []"
      by simp
    show ?thesis
      by (rule all_inv_update[OF assms True task_inv_answer[OF inv p, of True]])
         (simp_all add: stream_catch_def True Requesting)
  next
    case (Streaming i fullText)
    then have p: "phase (tasks s ! b) = Requesting i \<or> phase (tasks s ! b) = Streaming i fullText"
      by simp
    show ?thesis
      by (rule all_inv_update[OF assms True task_inv_answer[OF inv p, of True]])
         (simp_all add: stream_catch_def True Streaming)
  qed (use assms True in \<open>simp_all add: stream_catch_def\<close>)
qed

lemma all_inv_append:
  assumes "all_inv s" and "task_inv (now s) t'"
    and "tasks s' = tasks s @ [t']" and "now s' = now s"
  shows "all_inv s'"
  using assms unfolding all_inv_def by (auto simp: nth_append less_Suc_eq)

lemma all_inv_timer_fired:
  assumes "all_inv s"
  shows "all_inv (timer_fired b env s)"
proof (cases "b < length (tasks s)")
  case False
  then show ?thesis using assms by (simp add: timer_fired_def)
next
  case True
  then have inv: "task_inv (now s) (tasks s ! b)" using assms by (simp add: all_inv_def)
  show ?thesis
  proof (cases "phase (tasks s ! b)")
    case (Delaying due)
    show ?thesis
    proof (cases "due \<le> now s")
      case False
      then show ?thesis using assms True Delaying by (simp add: timer_fired_def)
    next
      case due: True
      show ?thesis
      proof (cases "Suc (idx (tasks s ! b)) < length (files (tasks s ! b))")
        case False
        show ?thesis
          by (rule all_inv_update[OF assms True task_inv_finish[OF inv Delaying False]])
             (use True Delaying due False in
               \<open>simp_all add: timer_fired_def onDrop_next_def Let_def\<close>)
      next
        case more: True
        show ?thesis
        proof (cases "setup_error env")
          case None
          show ?thesis
            by (rule all_inv_update[OF assms True
                  task_inv_begin[OF inv Delaying due more, of "random_id env"]])
               (use True Delaying due more None in
                 \<open>simp_all add: timer_fired_def onDrop_next_def processImage_def Let_def\<close>)
        next
          case (Some raw)
          show ?thesis
            by (rule all_inv_update[OF assms True
                  task_inv_begin_failed[OF inv Delaying due more, of "random_id env"]])
               (use True Delaying due more Some in
                 \<open>simp_all add: timer_fired_def onDrop_next_def processImage_def Let_def\<close>)
        qed
      qed
    qed
  qed (use assms True in \<open>simp_all add: timer_fired_def\<close>)
qed

lemma all_inv_onDrop:
  assumes "all_inv s"
  shows "all_inv (onDrop acceptedFiles env s)"
proof (cases acceptedFiles)
  case Nil
  show ?thesis
    by (rule all_inv_append[OF assms task_inv_first(3)])
       (simp_all add: Nil onDrop_def onDrop_next_def Let_def)
next
  case (Cons f fs)
  show ?thesis
  proof (cases "setup_error env")
    case None
    show ?thesis
      by (rule all_inv_append[OF assms task_inv_first(1)[of _ f fs "random_id env"]])
         (simp_all add: Cons None onDrop_def onDrop_next_def processImage_def Let_def)
  next
    case (Some raw)
    show ?thesis
      by (rule all_inv_append[OF assms task_inv_first(2)[of _ f fs "random_id env"]])
         (simp_all add: Cons Some onDrop_def onDrop_next_def processImage_def Let_def)
  qed
qed

lemma all_inv_tick:
  assumes "all_inv s"
  shows "all_inv (s\<lparr>now := now s + d\<rparr>)"
  using assms task_inv_mono[of "now s" _ "now s + d"] unfolding all_inv_def by simp

lemma all_inv_step:
  assumes "all_inv s"
  shows "all_inv (step st s)"
proof (cases st)
  case (Drop acceptedFiles env)
  then show ?thesis using all_inv_onDrop[OF assms] by simp
next
  case (FileLoad b)
  then show ?thesis using all_inv_reader_onload[OF assms] by simp
next
  case (FileError b)
  then show ?thesis using all_inv_reader_onerror[OF assms] by simp
next
  case (StreamOpen b)
  then show ?thesis using all_inv_stream_open[OF assms] by simp
next
  case (StreamChunk b c)
  then show ?thesis using all_inv_stream_chunk[OF assms] by simp
next
  case (StreamEnd b)
  then show ?thesis using all_inv_stream_end[OF assms] by simp
next
  case (StreamThrow b raw)
  then show ?thesis using all_inv_stream_catch[OF assms] by simp
next
  case (Timeout b env)
  then show ?thesis using all_inv_timer_fired[OF assms] by simp
next
  case (Tick d)
  then show ?thesis using all_inv_tick[OF assms] by simp
next
  case (ClickCard k)
  then show ?thesis
    using assms by (auto intro: all_inv_same simp: click_card_def setSelectedImage_def)
next
  case (ClickShowMore k)
  then show ?thesis
    using assms by (auto intro: all_inv_same simp: click_show_more_def setSelectedImage_def)
next
  case ClickClose
  then show ?thesis
    using assms by (auto intro: all_inv_same simp: click_close_def setSelectedImage_def)
next
  case (ClickCopy k)
  then show ?thesis
    using assms by (auto intro: all_inv_same simp: click_copy_def copyToClipboard_def)
next
  case (ClickDownload k)
  then show ?thesis
    using assms by (auto intro: all_inv_same simp: click_download_def)
next
  case (ClickRemove k)
  then show ?thesis
    using assms
    by (auto intro: all_inv_same simp: click_remove_def removeImage_def setSelectedImage_def Let_def)
qed

lemma all_inv_run: "all_inv s \<Longrightarrow> all_inv (run ss s)"
  unfolding run_def by (induction ss arbitrary: s) (simp_all add: all_inv_step)

lemma all_inv_init: "all_inv init"
  by (simp add: all_inv_def init_def)

section \<open>Records and ids\<close>

lemma map_id_updaters [simp]:
  "map id_img (setText i fullText prev) = map id_img prev"
  "map id_img (setDone i prev) = map id_img prev"
  "map id_img (setFailed i prev) = map id_img prev"
  "map id_img (setReadError i prev) = map id_img prev"
  "map id_img (appendImage i n u prev) = map id_img prev @ [i]"
  by (simp_all add: setText_def setDone_def setFailed_def setReadError_def appendImage_def
      newImage_def)

lemma map_name_updaters [simp]:
  "map name (setText i fullText prev) = map name prev"
  "map name (setDone i prev) = map name prev"
  "map name (setFailed i prev) = map name prev"
  "map name (setReadError i prev) = map name prev"
  "map name (appendImage i n u prev) = map name prev @ [n]"
  by (simp_all add: setText_def setDone_def setFailed_def setReadError_def appendImage_def
      newImage_def)

lemma length_updaters [simp]:
  "length (setText i fullText prev) = length prev"
  "length (setDone i prev) = length prev"
  "length (setFailed i prev) = length prev"
  "length (setReadError i prev) = length prev"
  "length (appendImage i n u prev) = Suc (length prev)"
  by (simp_all add: setText_def setDone_def setFailed_def setReadError_def appendImage_def)

lemma store_processImage:
  "processedImages (processImage b f env s) =
     (case setup_error env of
        None \<Rightarrow> appendImage (random_id env) (file_name f) (object_url env) (processedImages s)
      | Some raw \<Rightarrow>
          setFailed (random_id env)
            (appendImage (random_id env) (file_name f) (object_url env) (processedImages s)))"
  by (simp add: processImage_def Let_def split: option.splits)

lemma begun_processImage:
  "b < length (tasks s) \<Longrightarrow>
   begun (tasks (processImage b f env s) ! b) = begun (tasks s ! b) @ [(now s, f, random_id env)]"
  by (simp add: processImage_def Let_def split: option.splits)

lemma store_reader_onload [simp]:
  "processedImages (reader_onload b s) = processedImages s"
  by (simp add: reader_onload_def split: phase.splits)

lemma store_stream_open [simp]:
  "processedImages (stream_open b s) = processedImages s"
  by (simp add: stream_open_def split: phase.splits)

lemma store_clicks [simp]:
  "processedImages (click_card k s) = processedImages s"
  "processedImages (click_show_more k s) = processedImages s"
  "processedImages (click_close s) = processedImages s"
  "processedImages (click_copy k s) = processedImages s"
  "processedImages (click_download k s) = processedImages s"
  by (simp_all add: click_card_def click_show_more_def click_close_def click_copy_def
      click_download_def setSelectedImage_def copyToClipboard_def)

lemma store_removeImage [simp]:
  "processedImages (removeImage i s) = dropImage i (processedImages s)"
  by (simp add: removeImage_def setSelectedImage_def Let_def)

lemma ids_reader_onerror [simp]:
  "map id_img (processedImages (reader_onerror b s)) = map id_img (processedImages s)"
  by (simp add: reader_onerror_def split: phase.splits)

lemma ids_stream_chunk [simp]:
  "map id_img (processedImages (stream_chunk b c s)) = map id_img (processedImages s)"
  by (simp add: stream_chunk_def split: phase.splits)

lemma ids_stream_end [simp]:
  "map id_img (processedImages (stream_end b s)) = map id_img (processedImages s)"
  by (simp add: stream_end_def split: phase.splits)

lemma ids_stream_catch [simp]:
  "map id_img (processedImages (stream_catch b raw s)) = map id_img (processedImages s)"
  by (simp add: stream_catch_def split: phase.splits)

lemma ids_processImage [simp]:
  "map id_img (processedImages (processImage b f env s))
     = map id_img (processedImages s) @ [random_id env]"
  by (simp add: store_processImage split: option.splits)

lemma names_processImage [simp]:
  "map name (processedImages (processImage b f env s))
     = map name (processedImages s) @ [file_name f]"
  by (simp add: store_processImage split: option.splits)

lemma subseq_self_append: "subseq xs (xs @ ys)"
  by (rule subseq_rev_drop_many) simp

lemma subseq_map_filter: "subseq (map f (filter P xs)) (map f xs)"
  by (rule subseq_map) simp

lemma ids_step:
  "subseq (map id_img (processedImages (step st s))) (map id_img (processedImages s) @ draw_of st)"
proof (cases st)
  case (Drop acceptedFiles env)
  then show ?thesis
    by (cases acceptedFiles)
       (simp_all add: onDrop_def onDrop_next_def Let_def subseq_self_append
          del: subseq_append)
next
  case (Timeout b env)
  then show ?thesis
    by (simp add: timer_fired_def onDrop_next_def Let_def subseq_self_append
          split: phase.splits del: subseq_append)
next
  case (ClickRemove k)
  then show ?thesis
    by (simp add: click_remove_def dropImage_def subseq_map_filter)
qed simp_all

lemma ids_run:
  "subseq (map id_img (processedImages (run ss s))) (map id_img (processedImages s) @ draws ss)"
proof (induction ss arbitrary: s)
  case Nil
  show ?case by (simp add: run_def draws_def)
next
  case (Cons st ss)
  have "subseq (map id_img (processedImages (run ss (step st s))))
          (map id_img (processedImages (step st s)) @ draws ss)"
    using Cons.IH by simp
  moreover have "subseq (map id_img (processedImages (step st s)) @ draws ss)
          ((map id_img (processedImages s) @ draw_of st) @ draws ss)"
    using list_emb_append_mono[OF ids_step[of st s] subseq_order.refl[of "draws ss"]] .
  ultimately show ?case
    using subseq_order.trans by (fastforce simp: run_def draws_def)
qed

lemma length_tasks_processImage [simp]:
  "length (tasks (processImage b f env s)) = length (tasks s)"
  by (simp add: processImage_def Let_def split: option.splits)

lemma begun_other_processImage:
  "b' \<noteq> b \<Longrightarrow> begun (tasks (processImage b f env s) ! b') = begun (tasks s ! b')"
  by (simp add: processImage_def Let_def split: option.splits)

lemma begun_callbacks:
  "begun_before (reader_onload b s) b' = begun_before s b'"
  "begun_before (reader_onerror b s) b' = begun_before s b'"
  "begun_before (stream_open b s) b' = begun_before s b'"
  "begun_before (stream_chunk b c s) b' = begun_before s b'"
  "begun_before (stream_end b s) b' = begun_before s b'"
  "begun_before (stream_catch b raw s) b' = begun_before s b'"
  by (simp_all add: begun_before_def reader_onload_def reader_onerror_def stream_open_def
      stream_chunk_def stream_end_def stream_catch_def nth_list_update split: phase.splits)

lemma begun_clicks:
  "begun_before (click_card k s) b' = begun_before s b'"
  "begun_before (click_show_more k s) b' = begun_before s b'"
  "begun_before (click_close s) b' = begun_before s b'"
  "begun_before (click_copy k s) b' = begun_before s b'"
  "begun_before (click_download k s) b' = begun_before s b'"
  "begun_before (click_remove k s) b' = begun_before s b'"
  by (simp_all add: begun_before_def click_card_def click_show_more_def click_close_def
      click_copy_def click_download_def click_remove_def removeImage_def setSelectedImage_def
      copyToClipboard_def Let_def)

lemma length_callbacks:
  "length (processedImages (reader_onerror b s)) = length (processedImages s)"
  "length (processedImages (stream_chunk b c s)) = length (processedImages s)"
  "length (processedImages (stream_end b s)) = length (processedImages s)"
  "length (processedImages (stream_catch b raw s)) = length (processedImages s)"
  by (simp_all add: reader_onerror_def stream_chunk_def stream_end_def stream_catch_def
      split: phase.splits)

lemma step_without_begin:
  assumes "begins st s = None"
  shows "length (processedImages (step st s)) \<le> length (processedImages s)
         \<and> (\<forall>b'. begun_before (step st s) b' = begun_before s b')"
proof (cases st)
  case (Drop acceptedFiles env)
  then have "acceptedFiles = []" using assms by (cases acceptedFiles) simp_all
  then show ?thesis
    using Drop
    by (simp add: onDrop_def onDrop_next_def Let_def begun_before_def nth_append less_Suc_eq)
next
  case (Timeout b env)
  show ?thesis
  proof (cases "b < length (tasks s)")
    case False
    then show ?thesis using Timeout by (simp add: timer_fired_def)
  next
    case True
    then show ?thesis
      using Timeout assms
      by (auto simp add: timer_fired_def onDrop_next_def Let_def begun_before_def
          nth_list_update split: phase.splits if_splits)
  qed
next
  case (ClickRemove k)
  then show ?thesis
    by (simp add: begun_clicks) (simp add: click_remove_def dropImage_def)
next
  case (Tick d)
  then show ?thesis by (simp add: begun_before_def)
qed (simp_all add: begun_callbacks begun_clicks length_callbacks)

lemma step_with_begin:
  assumes "begins st s = Some (b, f, env)"
  shows "map id_img (processedImages (step st s))
           = map id_img (processedImages s) @ [random_id env]
         \<and> map name (processedImages (step st s))
           = map name (processedImages s) @ [file_name f]
         \<and> begun_before (step st s) b = begun_before s b @ [(now s, f, random_id env)]
         \<and> (\<forall>b'. b' \<noteq> b \<longrightarrow> begun_before (step st s) b' = begun_before s b')"
proof (cases st)
  case (Drop acceptedFiles e)
  then obtain fs where a: "acceptedFiles = f # fs" and b: "b = length (tasks s)" and e: "e = env"
    using assms by (cases acceptedFiles) simp_all
  show ?thesis
    unfolding Drop a b e
    by (simp add: onDrop_def onDrop_next_def Let_def begun_before_def begun_processImage
        begun_other_processImage nth_append)
next
  case (Timeout b0 e)
  then have g: "b0 < length (tasks s)" using assms by (simp split: if_splits)
  then obtain due where p: "phase (tasks s ! b0) = Delaying due"
    using assms Timeout by (cases "phase (tasks s ! b0)") simp_all
  have d: "due \<le> now s" and m: "Suc (idx (tasks s ! b0)) < length (files (tasks s ! b0))"
    and b: "b = b0" and f: "f = files (tasks s ! b0) ! Suc (idx (tasks s ! b0))" and e: "e = env"
    using assms Timeout g p by (auto split: if_splits)
  show ?thesis
    unfolding Timeout b e f using g p d m
    by (simp add: timer_fired_def onDrop_next_def Let_def begun_before_def begun_processImage
        begun_other_processImage)
qed (use assms in simp_all)

lemma subseq_keeps_distinct: "subseq xs ys \<Longrightarrow> distinct ys \<Longrightarrow> distinct xs"
proof (induction rule: list_emb.induct)
  case (list_emb_Cons2 x y xs ys)
  then have "x \<notin> set xs"
    using list_emb_set[of "(=)" xs ys x] by auto
  then show ?case using list_emb_Cons2 by simp
qed simp_all

text \<open>
  Claim C3, as amended. For every call of \<^verbatim>\<open>onDrop\<close> the files begun so far are the first
  files of its batch in drop order, and all of them once the call has finished. A stimulus
  that begins a file appends exactly one record behind the others, with the name of that
  file and the id drawn for it, and adds one entry to the history of that call alone; any
  other stimulus creates no record and no entry. The ids in the list are a subsequence of
  the ids drawn, in the order of the draws; they are unique if the draws are pairwise
  distinct, which the code does not check.
\<close>

theorem records_of_a_batch:
  "(\<forall>t \<in> set (tasks (run ss init)).
       map (\<lambda>e. fst (snd e)) (begun t) = take (length (begun t)) (files t)
       \<and> (phase t = Finished \<longrightarrow> length (begun t) = length (files t)))
   \<and> (case begins st s of
        None \<Rightarrow>
          length (processedImages (step st s)) \<le> length (processedImages s)
          \<and> (\<forall>b'. begun_before (step st s) b' = begun_before s b')
      | Some (b, f, env) \<Rightarrow>
          map id_img (processedImages (step st s))
            = map id_img (processedImages s) @ [random_id env]
          \<and> map name (processedImages (step st s))
            = map name (processedImages s) @ [file_name f]
          \<and> begun_before (step st s) b = begun_before s b @ [(now s, f, random_id env)]
          \<and> (\<forall>b'. b' \<noteq> b \<longrightarrow> begun_before (step st s) b' = begun_before s b'))
   \<and> subseq (map id_img (processedImages (run ss init))) (draws ss)
   \<and> (distinct (draws ss) \<longrightarrow> distinct (map id_img (processedImages (run ss init))))"
proof -
  have a: "map (\<lambda>e. fst (snd e)) (begun t) = take (length (begun t)) (files t)
       \<and> (phase t = Finished \<longrightarrow> length (begun t) = length (files t))"
    if "t \<in> set (tasks (run ss init))" for t
  proof -
    from that obtain b where "b < length (tasks (run ss init))" and "t = tasks (run ss init) ! b"
      by (auto simp: in_set_conv_nth)
    then have "task_inv (now (run ss init)) t"
      using all_inv_run[OF all_inv_init, of ss] by (simp add: all_inv_def)
    then show ?thesis unfolding task_inv_def by auto
  qed
  have b: "case begins st s of
        None \<Rightarrow>
          length (processedImages (step st s)) \<le> length (processedImages s)
          \<and> (\<forall>b'. begun_before (step st s) b' = begun_before s b')
      | Some (b, f, env) \<Rightarrow>
          map id_img (processedImages (step st s))
            = map id_img (processedImages s) @ [random_id env]
          \<and> map name (processedImages (step st s))
            = map name (processedImages s) @ [file_name f]
          \<and> begun_before (step st s) b = begun_before s b @ [(now s, f, random_id env)]
          \<and> (\<forall>b'. b' \<noteq> b \<longrightarrow> begun_before (step st s) b' = begun_before s b')"
  proof (cases "begins st s")
    case None
    then show ?thesis using step_without_begin[OF None] by simp
  next
    case (Some x)
    obtain b f env where x: "x = (b, f, env)" by (cases x)
    show ?thesis using step_with_begin[OF Some[unfolded x]] by (simp add: Some x)
  qed
  have c: "subseq (map id_img (processedImages (run ss init))) (draws ss)"
    using ids_run[of ss init] by (simp add: init_def)
  have d: "distinct (map id_img (processedImages (run ss init)))" if "distinct (draws ss)"
    using c that subseq_keeps_distinct by blast
  show ?thesis using a b c d by blast
qed

text \<open>
  The claim as stated fails: with the draws 0.5 and 0.25 both records of a batch of two
  carry the empty id.
\<close>

theorem duplicate_ids_counterexample:
  "map id_img (processedImages
     (run [Drop [receipt, scan] draw_half, FileLoad 0, StreamOpen 0, StreamEnd 0, Tick 1000,
           Timeout 0 draw_quarter] init)) = [[], []]
   \<and> map name (processedImages
     (run [Drop [receipt, scan] draw_half, FileLoad 0, StreamOpen 0, StreamEnd 0, Tick 1000,
           Timeout 0 draw_quarter] init)) = [''receipt.png'', ''scan.v2.png'']"
  by code_simp

text \<open>
  The statement at a batch of two files whose loop has finished, at the stimulus that begins
  its second file and at a stimulus that begins none.
\<close>

theorem records_of_a_batch_witness:
  "tasks (run whole_session init) ! 0 \<in> set (tasks (run whole_session init))
   \<and> phase (tasks (run whole_session init) ! 0) = Finished
   \<and> length (begun (tasks (run whole_session init) ! 0)) = 2
   \<and> length (files (tasks (run whole_session init) ! 0)) = 2
   \<and> distinct (draws whole_session)
   \<and> distinct (map id_img (processedImages (run whole_session init)))
   \<and> begins (Timeout 0 draw2) receipt_waited = Some (0, scan, draw2)
   \<and> map name (processedImages (step (Timeout 0 draw2) receipt_waited))
        = map name (processedImages receipt_waited) @ [''scan.v2.png'']
   \<and> begins (FileLoad 0) receipt_reading = None
   \<and> length (processedImages (step (FileLoad 0) receipt_reading))
        \<le> length (processedImages receipt_reading)"
proof -
  have m: "tasks (run whole_session init) ! 0 \<in> set (tasks (run whole_session init))"
    by code_simp
  have p: "phase (tasks (run whole_session init) ! 0) = Finished" by code_simp
  have l: "length (files (tasks (run whole_session init) ! 0)) = 2" by code_simp
  have d: "distinct (draws whole_session)" by code_simp
  have b1: "begins (Timeout 0 draw2) receipt_waited = Some (0, scan, draw2)" by code_simp
  have b2: "begins (FileLoad 0) receipt_reading = None" by simp
  have n: "file_name scan = ''scan.v2.png''" by code_simp
  note t1 = records_of_a_batch[of whole_session "Timeout 0 draw2" receipt_waited]
  note t2 = records_of_a_batch[of whole_session "FileLoad 0" receipt_reading]
  have c1: "length (begun (tasks (run whole_session init) ! 0)) = 2"
    using t1 m p l by auto
  have c2: "distinct (map id_img (processedImages (run whole_session init)))"
    using t1 d by blast
  have c3: "map name (processedImages (step (Timeout 0 draw2) receipt_waited))
        = map name (processedImages receipt_waited) @ [''scan.v2.png'']"
    using t1 b1 n by simp
  have c4: "length (processedImages (step (FileLoad 0) receipt_reading))
        \<le> length (processedImages receipt_reading)"
    using t2 b2 by simp
  show ?thesis using m p l d b1 b2 c1 c2 c3 c4 by simp
qed

section \<open>When a record appears\<close>

lemma begin_origin:
  assumes "begins st s = Some (b, f, env)"
  shows "(\<exists>fs. st = Drop (f # fs) env \<and> b = length (tasks s))
         \<or> (st = Timeout b env \<and> b < length (tasks s)
            \<and> (\<exists>due. phase (tasks s ! b) = Delaying due \<and> due \<le> now s)
            \<and> Suc (idx (tasks s ! b)) < length (files (tasks s ! b))
            \<and> f = files (tasks s ! b) ! Suc (idx (tasks s ! b)))"
proof (cases st)
  case (Drop acceptedFiles e)
  then show ?thesis using assms by (cases acceptedFiles) simp_all
next
  case (Timeout b0 e)
  then have g: "b0 < length (tasks s)" using assms by (simp split: if_splits)
  then obtain due where p: "phase (tasks s ! b0) = Delaying due"
    using assms Timeout by (cases "phase (tasks s ! b0)") simp_all
  show ?thesis using assms Timeout g p by (auto split: if_splits)
qed (use assms in simp_all)

lemma begin_effect:
  assumes "begins st s = Some (b, f, env)" and "setup_error env = None"
  shows "processedImages (step st s) =
           processedImages s @
             [\<lparr>id_img = random_id env, name = file_name f, text_img = [], isProcessing = True,
               error = None, imageUrl = object_url env\<rparr>]
         \<and> objectUrls (step st s) = objectUrls s @ [object_url env]
         \<and> phase (tasks (step st s) ! b) = Reading (random_id env)
         \<and> requested (tasks (step st s) ! b)
             = (if b < length (tasks s) then requested (tasks s ! b) else [])"
  using begin_origin[OF assms(1)]
proof (elim disjE exE conjE)
  fix fs
  assume "st = Drop (f # fs) env" and "b = length (tasks s)"
  then show ?thesis
    using assms(2)
    by (simp add: onDrop_def onDrop_next_def processImage_def Let_def appendImage_def
        newImage_def)
next
  fix due
  assume "st = Timeout b env" and "b < length (tasks s)"
    and "phase (tasks s ! b) = Delaying due" and "due \<le> now s"
    and "Suc (idx (tasks s ! b)) < length (files (tasks s ! b))"
    and "f = files (tasks s ! b) ! Suc (idx (tasks s ! b))"
  then show ?thesis
    using assms(2)
    by (simp add: timer_fired_def onDrop_next_def processImage_def Let_def appendImage_def
        newImage_def)
qed

text \<open>
  Claim C2, as amended. A record is created when the processing of its own file begins,
  and at no other moment: for the first file of a batch that is the drop itself, for every
  later file it is the moment the timer of the delay after the file before it fires. Unless
  the set-up of the reader throws, the record is appended in the processing state, with
  empty text, no error and the preview URL just created, the call waits for the reader,
  and the step sends no request. A stimulus that begins no file adds no record.
\<close>

theorem record_created_when_file_begins:
  "(begins st s = Some (b, f, env) \<longrightarrow>
      ((\<exists>fs. st = Drop (f # fs) env \<and> b = length (tasks s))
       \<or> (st = Timeout b env \<and> b < length (tasks s)
          \<and> (\<exists>due. phase (tasks s ! b) = Delaying due \<and> due \<le> now s)
          \<and> f = files (tasks s ! b) ! Suc (idx (tasks s ! b))))
      \<and> length (processedImages (step st s)) = Suc (length (processedImages s))
      \<and> (setup_error env = None \<longrightarrow>
           processedImages (step st s) =
             processedImages s @
               [\<lparr>id_img = random_id env, name = file_name f, text_img = [],
                 isProcessing = True, error = None, imageUrl = object_url env\<rparr>]
           \<and> objectUrls (step st s) = objectUrls s @ [object_url env]
           \<and> phase (tasks (step st s) ! b) = Reading (random_id env)
           \<and> requested (tasks (step st s) ! b)
               = (if b < length (tasks s) then requested (tasks s ! b) else [])))
   \<and> (begins st s = None \<longrightarrow>
        length (processedImages (step st s)) \<le> length (processedImages s))"
proof (intro conjI impI)
  assume a: "begins st s = Some (b, f, env)"
  show "(\<exists>fs. st = Drop (f # fs) env \<and> b = length (tasks s))
       \<or> (st = Timeout b env \<and> b < length (tasks s)
          \<and> (\<exists>due. phase (tasks s ! b) = Delaying due \<and> due \<le> now s)
          \<and> f = files (tasks s ! b) ! Suc (idx (tasks s ! b)))"
    using begin_origin[OF a] by blast
  have "length (map id_img (processedImages (step st s)))
          = length (map id_img (processedImages s) @ [random_id env])"
    using step_with_begin[OF a] by simp
  then show "length (processedImages (step st s)) = Suc (length (processedImages s))"
    by simp
next
  assume a: "begins st s = Some (b, f, env)" and e: "setup_error env = None"
  note t = begin_effect[OF a e]
  show "processedImages (step st s) =
             processedImages s @
               [\<lparr>id_img = random_id env, name = file_name f, text_img = [],
                 isProcessing = True, error = None, imageUrl = object_url env\<rparr>]"
    using t by blast
  show "objectUrls (step st s) = objectUrls s @ [object_url env]" using t by blast
  show "phase (tasks (step st s) ! b) = Reading (random_id env)" using t by blast
  show "requested (tasks (step st s) ! b)
               = (if b < length (tasks s) then requested (tasks s ! b) else [])"
    using t by blast
next
  assume "begins st s = None"
  then show "length (processedImages (step st s)) \<le> length (processedImages s)"
    using step_without_begin by blast
qed

text \<open>
  The statement at the drop of two files, and at the end of a stream, which begins no file.
\<close>

theorem record_created_when_file_begins_witness:
  "begins (Drop [receipt, scan] draw1) init = Some (0, receipt, draw1)
   \<and> setup_error draw1 = None
   \<and> map name (processedImages (step (Drop [receipt, scan] draw1) init)) = [''receipt.png'']
   \<and> map isProcessing (processedImages (step (Drop [receipt, scan] draw1) init)) = [True]
   \<and> requested (tasks (step (Drop [receipt, scan] draw1) init) ! 0) = []
   \<and> begins (StreamEnd 0) receipt_streaming = None
   \<and> length (processedImages (step (StreamEnd 0) receipt_streaming))
       \<le> length (processedImages receipt_streaming)"
proof -
  have b1: "begins (Drop [receipt, scan] draw1) init = Some (0, receipt, draw1)"
    by (simp add: init_def)
  have e: "setup_error draw1 = None" by (simp add: draw1_def)
  have b2: "begins (StreamEnd 0) receipt_streaming = None" by simp
  have i: "processedImages init = []" "tasks init = []" by (simp_all add: init_def)
  note t1 = record_created_when_file_begins[of "Drop [receipt, scan] draw1" init 0 receipt draw1]
  note t2 = record_created_when_file_begins[of "StreamEnd 0" receipt_streaming]
  have c1: "processedImages (step (Drop [receipt, scan] draw1) init) =
             processedImages init @
               [\<lparr>id_img = random_id draw1, name = file_name receipt, text_img = [],
                 isProcessing = True, error = None, imageUrl = object_url draw1\<rparr>]"
    using t1 b1 e by blast
  have c2: "requested (tasks (step (Drop [receipt, scan] draw1) init) ! 0)
               = (if 0 < length (tasks init) then requested (tasks init ! 0) else [])"
    using t1 b1 e by blast
  have c3: "length (processedImages (step (StreamEnd 0) receipt_streaming))
       \<le> length (processedImages receipt_streaming)"
    using t2 b2 by blast
  show ?thesis
    using b1 e b2 c1 c2 c3 i by (simp add: receipt_def)
qed

text \<open>
  The claim as stated fails: after two files were dropped and the request for the first was
  sent, the list holds the record of the first file only.
\<close>

theorem second_record_late_counterexample:
  "requested (tasks (run [Drop [receipt, scan] draw1, FileLoad 0] init) ! 0) = [(0, 0)]
   \<and> map name (processedImages (run [Drop [receipt, scan] draw1, FileLoad 0] init))
       = [''receipt.png'']"
  by code_simp

section \<open>The list and the suspended calls agree\<close>

lemma in_setText_other:
  "r \<in> set prev \<Longrightarrow> id_img r \<noteq> i \<Longrightarrow> r \<in> set (setText i fullText prev)"
  unfolding setText_def by (induction prev) auto

lemma in_setText_same:
  "r \<in> set prev \<Longrightarrow> id_img r = i \<Longrightarrow> r\<lparr>text_img := fullText\<rparr> \<in> set (setText i fullText prev)"
  unfolding setText_def by (induction prev) auto

lemma in_setDone_other:
  "r \<in> set prev \<Longrightarrow> id_img r \<noteq> i \<Longrightarrow> r \<in> set (setDone i prev)"
  unfolding setDone_def by (induction prev) auto

lemma in_setFailed_other:
  "r \<in> set prev \<Longrightarrow> id_img r \<noteq> i \<Longrightarrow> r \<in> set (setFailed i prev)"
  unfolding setFailed_def by (induction prev) auto

lemma in_setReadError_other:
  "r \<in> set prev \<Longrightarrow> id_img r \<noteq> i \<Longrightarrow> r \<in> set (setReadError i prev)"
  unfolding setReadError_def by (induction prev) auto

lemma agree_distinctD: "agree store ps \<Longrightarrow> distinct (map id_img store)"
  by (simp add: agree_def)

lemma agree_activeD:
  "agree store ps \<Longrightarrow> b < length ps \<Longrightarrow> b' < length ps \<Longrightarrow>
   active (ps ! b) = Some i \<Longrightarrow> active (ps ! b') = Some i \<Longrightarrow> b = b'"
  unfolding agree_def by (metis option.distinct(1))

lemma agree_recordD:
  "agree store ps \<Longrightarrow> b < length ps \<Longrightarrow> active (ps ! b) = Some i \<Longrightarrow>
   \<exists>r \<in> set store. id_img r = i \<and> text_img r = sofar (ps ! b)
                      \<and> isProcessing r \<and> error r = None"
  unfolding agree_def by blast

lemma agreeI:
  assumes "distinct (map id_img store)"
    and "\<And>b b' i. b < length ps \<Longrightarrow> b' < length ps \<Longrightarrow> active (ps ! b) = Some i \<Longrightarrow>
           active (ps ! b') = Some i \<Longrightarrow> b = b'"
    and "\<And>b i. b < length ps \<Longrightarrow> active (ps ! b) = Some i \<Longrightarrow>
           \<exists>r \<in> set store. id_img r = i \<and> text_img r = sofar (ps ! b)
                      \<and> isProcessing r \<and> error r = None"
  shows "agree store ps"
  unfolding agree_def
proof (intro conjI allI impI)
  show "distinct (map id_img store)" by fact
next
  fix b b'
  assume l: "b < length ps" "b' < length ps"
    and e: "active (ps ! b) \<noteq> None \<and> active (ps ! b) = active (ps ! b')"
  from e have "active (ps ! b) \<noteq> None" by (rule conjunct1)
  then obtain i where i: "active (ps ! b) = Some i" by (cases "active (ps ! b)") simp_all
  then have "active (ps ! b') = Some i" using e by simp
  then show "b = b'" using assms(2)[OF l i] by simp
next
  fix b i
  assume "b < length ps" "active (ps ! b) = Some i"
  then show "\<exists>r \<in> set store. id_img r = i \<and> text_img r = sofar (ps ! b)
                      \<and> isProcessing r \<and> error r = None"
    using assms(3) by blast
qed

lemma agree_phase:
  assumes "agree store ps" and "b < length ps"
    and "active p' = active (ps ! b)" and "sofar p' = sofar (ps ! b)"
  shows "agree store (ps[b := p'])"
proof -
  have a: "active (ps[b := p'] ! x) = active (ps ! x)" if "x < length ps" for x
    using that assms(2,3) by (cases "x = b") simp_all
  have t: "sofar (ps[b := p'] ! x) = sofar (ps ! x)" if "x < length ps" for x
    using that assms(2,4) by (cases "x = b") simp_all
  show ?thesis
  proof (rule agreeI)
    show "distinct (map id_img store)" using assms(1) by (rule agree_distinctD)
  next
    fix x y i
    assume "x < length (ps[b := p'])" "y < length (ps[b := p'])"
      "active (ps[b := p'] ! x) = Some i" "active (ps[b := p'] ! y) = Some i"
    then show "x = y" using a agree_activeD[OF assms(1)] by simp
  next
    fix x i
    assume "x < length (ps[b := p'])" "active (ps[b := p'] ! x) = Some i"
    then show "\<exists>r \<in> set store. id_img r = i \<and> text_img r = sofar (ps[b := p'] ! x)
                      \<and> isProcessing r \<and> error r = None"
      using a t agree_recordD[OF assms(1), of x i] by simp
  qed
qed

lemma agree_chunk:
  assumes "agree store ps" and "b < length ps" and "active (ps ! b) = Some i"
  shows "agree (setText i fullText store) (ps[b := Streaming i fullText])"
proof -
  have a: "active (ps[b := Streaming i fullText] ! x) = active (ps ! x)" if "x < length ps" for x
    using that assms(2,3) by (cases "x = b") simp_all
  show ?thesis
  proof (rule agreeI)
    show "distinct (map id_img (setText i fullText store))"
      using agree_distinctD[OF assms(1)] by simp
  next
    fix x y j
    assume "x < length (ps[b := Streaming i fullText])" "y < length (ps[b := Streaming i fullText])"
      "active (ps[b := Streaming i fullText] ! x) = Some j"
      "active (ps[b := Streaming i fullText] ! y) = Some j"
    then show "x = y" using a agree_activeD[OF assms(1)] by simp
  next
    fix x j
    assume x: "x < length (ps[b := Streaming i fullText])"
      and j: "active (ps[b := Streaming i fullText] ! x) = Some j"
    then have xl: "x < length ps" and oj: "active (ps ! x) = Some j" using a by simp_all
    from agree_recordD[OF assms(1) xl oj] obtain r where r: "r \<in> set store" "id_img r = j"
      "text_img r = sofar (ps ! x)" "isProcessing r" "error r = None" by blast
    show "\<exists>r \<in> set (setText i fullText store). id_img r = j
            \<and> text_img r = sofar (ps[b := Streaming i fullText] ! x)
            \<and> isProcessing r \<and> error r = None"
    proof (cases "x = b")
      case True
      then have "j = i" using oj assms(3) by simp
      then have "r\<lparr>text_img := fullText\<rparr> \<in> set (setText i fullText store)"
        using in_setText_same r(1,2) by simp
      then show ?thesis using True r \<open>j = i\<close> assms(2)
        by (intro bexI[of _ "r\<lparr>text_img := fullText\<rparr>"]) simp_all
    next
      case False
      then have "j \<noteq> i" using agree_activeD[OF assms(1) xl assms(2) oj] assms(3) by auto
      then have "r \<in> set (setText i fullText store)" using in_setText_other r(1,2) by simp
      then show ?thesis using False r by (intro bexI[of _ r]) simp_all
    qed
  qed
qed

lemma agree_terminal:
  assumes "agree store ps" and "b < length ps" and "active (ps ! b) = Some i"
    and "active p' = None"
    and keep: "\<And>r. r \<in> set store \<Longrightarrow> id_img r \<noteq> i \<Longrightarrow> r \<in> set store'"
    and ids: "map id_img store' = map id_img store"
  shows "agree store' (ps[b := p'])"
proof (rule agreeI)
  show "distinct (map id_img store')" using agree_distinctD[OF assms(1)] ids by simp
next
  fix x y j
  assume "x < length (ps[b := p'])" "y < length (ps[b := p'])"
    "active (ps[b := p'] ! x) = Some j" "active (ps[b := p'] ! y) = Some j"
  then have "x < length ps \<and> y < length ps \<and> active (ps ! x) = Some j \<and> active (ps ! y) = Some j"
    using assms(2,4) by (cases "x = b"; cases "y = b") simp_all
  then show "x = y" using agree_activeD[OF assms(1)] by blast
next
  fix x j
  assume x: "x < length (ps[b := p'])" and j: "active (ps[b := p'] ! x) = Some j"
  then have nb: "x \<noteq> b" using assms(2,4) by (cases "x = b") simp_all
  then have xl: "x < length ps" and oj: "active (ps ! x) = Some j" using x j by simp_all
  from agree_recordD[OF assms(1) xl oj] obtain r where r: "r \<in> set store" "id_img r = j"
    "text_img r = sofar (ps ! x)" "isProcessing r" "error r = None" by blast
  have "j \<noteq> i" using agree_activeD[OF assms(1) xl assms(2) oj] assms(3) nb by auto
  then have "r \<in> set store'" using keep r(1,2) by simp
  then show "\<exists>r \<in> set store'. id_img r = j \<and> text_img r = sofar (ps[b := p'] ! x)
            \<and> isProcessing r \<and> error r = None"
    using nb r by (intro bexI[of _ r]) simp_all
qed

lemma agree_fresh:
  assumes "agree store ps" and "d \<notin> id_img ` set store" and "b < length ps"
  shows "active (ps ! b) \<noteq> Some d"
proof
  assume "active (ps ! b) = Some d"
  from agree_recordD[OF assms(1,3) this] show False using assms(2) by auto
qed

lemma agree_begin:
  assumes "agree store ps" and "b < length ps" and "active (ps ! b) = None"
    and "d \<notin> id_img ` set store"
  shows "agree (appendImage d n u store) (ps[b := Reading d])"
proof (rule agreeI)
  show "distinct (map id_img (appendImage d n u store))"
    using agree_distinctD[OF assms(1)] assms(4) by simp
next
  fix x y j
  assume x: "x < length (ps[b := Reading d])" and y: "y < length (ps[b := Reading d])"
    and ax: "active (ps[b := Reading d] ! x) = Some j"
    and ay: "active (ps[b := Reading d] ! y) = Some j"
  show "x = y"
  proof (cases "x = b")
    case True
    then have "j = d" using ax assms(2) by simp
    then show ?thesis
      using True ay y agree_fresh[OF assms(1,4), of y] by (cases "y = b") simp_all
  next
    case False
    then have ox: "active (ps ! x) = Some j" using ax by simp
    then have "j \<noteq> d" using agree_fresh[OF assms(1,4), of x] x by auto
    then have "y \<noteq> b" using ay assms(2) by auto
    then show ?thesis using agree_activeD[OF assms(1) _ _ ox] x y ay by simp
  qed
next
  fix x j
  assume x: "x < length (ps[b := Reading d])" and j: "active (ps[b := Reading d] ! x) = Some j"
  show "\<exists>r \<in> set (appendImage d n u store). id_img r = j
          \<and> text_img r = sofar (ps[b := Reading d] ! x) \<and> isProcessing r \<and> error r = None"
  proof (cases "x = b")
    case True
    then have "j = d" using j assms(2) by simp
    then show ?thesis using True assms(2)
      by (intro bexI[of _ "newImage d n u"]) (simp_all add: newImage_def appendImage_def)
  next
    case False
    then have xl: "x < length ps" and oj: "active (ps ! x) = Some j" using x j by simp_all
    from agree_recordD[OF assms(1) xl oj] obtain r where r: "r \<in> set store" "id_img r = j"
      "text_img r = sofar (ps ! x)" "isProcessing r" "error r = None" by blast
    then show ?thesis using False
      by (intro bexI[of _ r]) (simp_all add: appendImage_def)
  qed
qed

lemma agree_begin_failed:
  assumes "agree store ps" and "b < length ps" and "active (ps ! b) = None"
    and "d \<notin> id_img ` set store" and "active p' = None"
  shows "agree (setFailed d (appendImage d n u store)) (ps[b := p'])"
proof (rule agreeI)
  show "distinct (map id_img (setFailed d (appendImage d n u store)))"
    using agree_distinctD[OF assms(1)] assms(4) by simp
next
  fix x y j
  assume "x < length (ps[b := p'])" "y < length (ps[b := p'])"
    "active (ps[b := p'] ! x) = Some j" "active (ps[b := p'] ! y) = Some j"
  then have "x < length ps \<and> y < length ps \<and> active (ps ! x) = Some j \<and> active (ps ! y) = Some j"
    using assms(2,5) by (cases "x = b"; cases "y = b") simp_all
  then show "x = y" using agree_activeD[OF assms(1)] by blast
next
  fix x j
  assume x: "x < length (ps[b := p'])" and j: "active (ps[b := p'] ! x) = Some j"
  then have nb: "x \<noteq> b" using assms(2,5) by (cases "x = b") simp_all
  then have xl: "x < length ps" and oj: "active (ps ! x) = Some j" using x j by simp_all
  from agree_recordD[OF assms(1) xl oj] obtain r where r: "r \<in> set store" "id_img r = j"
    "text_img r = sofar (ps ! x)" "isProcessing r" "error r = None" by blast
  have "j \<noteq> d" using agree_fresh[OF assms(1,4) xl] oj by auto
  moreover have "r \<in> set (appendImage d n u store)" using r(1) by (simp add: appendImage_def)
  ultimately have "r \<in> set (setFailed d (appendImage d n u store))"
    using in_setFailed_other r(2) by simp
  then show "\<exists>r \<in> set (setFailed d (appendImage d n u store)). id_img r = j
          \<and> text_img r = sofar (ps[b := p'] ! x) \<and> isProcessing r \<and> error r = None"
    using nb r by (intro bexI[of _ r]) simp_all
qed

lemma agree_new_task:
  assumes "agree store ps" and "active p = None"
  shows "agree store (ps @ [p])"
proof (rule agreeI)
  show "distinct (map id_img store)" using assms(1) by (rule agree_distinctD)
next
  fix x y j
  assume "x < length (ps @ [p])" "y < length (ps @ [p])"
    "active ((ps @ [p]) ! x) = Some j" "active ((ps @ [p]) ! y) = Some j"
  then have "x < length ps \<and> y < length ps \<and> active (ps ! x) = Some j \<and> active (ps ! y) = Some j"
    using assms(2) by (cases "x = length ps"; cases "y = length ps") (simp_all add: nth_append)
  then show "x = y" using agree_activeD[OF assms(1)] by blast
next
  fix x j
  assume x: "x < length (ps @ [p])" and j: "active ((ps @ [p]) ! x) = Some j"
  then have "x \<noteq> length ps" using assms(2) by (cases "x = length ps") simp_all
  then have xl: "x < length ps" and oj: "active (ps ! x) = Some j"
    using x j by (simp_all add: nth_append)
  from agree_recordD[OF assms(1) xl oj] xl
  show "\<exists>r \<in> set store. id_img r = j \<and> text_img r = sofar ((ps @ [p]) ! x)
          \<and> isProcessing r \<and> error r = None"
    by (simp add: nth_append)
qed

lemma agree_remove:
  assumes "agree store ps" and "k < length store" and "\<not> isProcessing (store ! k)"
  shows "agree (dropImage (id_img (store ! k)) store) ps"
proof (rule agreeI)
  show "distinct (map id_img (dropImage (id_img (store ! k)) store))"
    using agree_distinctD[OF assms(1)] by (simp add: dropImage_def distinct_map_filter)
next
  fix x y j
  assume "x < length ps" "y < length ps" "active (ps ! x) = Some j" "active (ps ! y) = Some j"
  then show "x = y" using agree_activeD[OF assms(1)] by blast
next
  fix x j
  assume xl: "x < length ps" and oj: "active (ps ! x) = Some j"
  from agree_recordD[OF assms(1) xl oj] obtain r where r: "r \<in> set store" "id_img r = j"
    "text_img r = sofar (ps ! x)" "isProcessing r" "error r = None" by blast
  have "id_img r \<noteq> id_img (store ! k)"
  proof
    assume e: "id_img r = id_img (store ! k)"
    have "store ! k \<in> set store" using assms(2) by simp
    then have "r = store ! k"
      using agree_distinctD[OF assms(1)] r(1) e by (meson distinct_map inj_onD)
    then show False using r(4) assms(3) by simp
  qed
  then have "r \<in> set (dropImage (id_img (store ! k)) store)"
    using r(1) by (simp add: dropImage_def)
  then show "\<exists>r \<in> set (dropImage (id_img (store ! k)) store). id_img r = j
          \<and> text_img r = sofar (ps ! x) \<and> isProcessing r \<and> error r = None"
    using r by (intro bexI[of _ r]) simp_all
qed

lemma phases_processImage:
  "b < length (tasks s) \<Longrightarrow>
   map phase (tasks (processImage b f env s)) =
     (map phase (tasks s))
       [b := (case setup_error env of
                None \<Rightarrow> Reading (random_id env)
              | Some raw \<Rightarrow> Delaying (now s + 1000))]"
  by (simp add: processImage_def Let_def map_update split: option.splits)

lemma ids_inv_processImage:
  assumes "ids_inv s" and "b < length (tasks s)" and "active (phase (tasks s ! b)) = None"
    and "random_id env \<notin> id_img ` set (processedImages s)"
  shows "ids_inv (processImage b f env s)"
proof (cases "setup_error env")
  case None
  show ?thesis
    using agree_begin[of "processedImages s" "map phase (tasks s)" b "random_id env"
        "file_name f" "object_url env"] assms
    by (simp add: ids_inv_def phases_processImage store_processImage None)
next
  case (Some raw)
  show ?thesis
    using agree_begin_failed[of "processedImages s" "map phase (tasks s)" b "random_id env"
        "Delaying (now s + 1000)" "file_name f" "object_url env"] assms
    by (simp add: ids_inv_def phases_processImage store_processImage Some)
qed

lemma ids_inv_reader_onload:
  assumes "ids_inv s"
  shows "ids_inv (reader_onload b s)"
proof (cases "b < length (tasks s)")
  case False
  then show ?thesis using assms by (simp add: reader_onload_def)
next
  case True
  show ?thesis
  proof (cases "phase (tasks s ! b)")
    case (Reading i)
    show ?thesis
      using agree_phase[of "processedImages s" "map phase (tasks s)" b "Requesting i"]
        assms True Reading
      by (simp add: ids_inv_def reader_onload_def map_update)
  qed (use assms True in \<open>simp_all add: reader_onload_def\<close>)
qed

lemma ids_inv_stream_open:
  assumes "ids_inv s"
  shows "ids_inv (stream_open b s)"
proof (cases "b < length (tasks s)")
  case False
  then show ?thesis using assms by (simp add: stream_open_def)
next
  case True
  show ?thesis
  proof (cases "phase (tasks s ! b)")
    case (Requesting i)
    show ?thesis
      using agree_phase[of "processedImages s" "map phase (tasks s)" b "Streaming i []"]
        assms True Requesting
      by (simp add: ids_inv_def stream_open_def map_update)
  qed (use assms True in \<open>simp_all add: stream_open_def\<close>)
qed

lemma ids_inv_stream_chunk:
  assumes "ids_inv s"
  shows "ids_inv (stream_chunk b c s)"
proof (cases "b < length (tasks s)")
  case False
  then show ?thesis using assms by (simp add: stream_chunk_def)
next
  case True
  show ?thesis
  proof (cases "phase (tasks s ! b)")
    case (Streaming i fullText)
    show ?thesis
      using agree_chunk[of "processedImages s" "map phase (tasks s)" b i "fullText @ c"]
        assms True Streaming
      by (simp add: ids_inv_def stream_chunk_def map_update)
  qed (use assms True in \<open>simp_all add: stream_chunk_def\<close>)
qed

lemma ids_inv_reader_onerror:
  assumes "ids_inv s"
  shows "ids_inv (reader_onerror b s)"
proof (cases "b < length (tasks s)")
  case False
  then show ?thesis using assms by (simp add: reader_onerror_def)
next
  case True
  show ?thesis
  proof (cases "phase (tasks s ! b)")
    case (Reading i)
    show ?thesis
      using agree_terminal[of "processedImages s" "map phase (tasks s)" b i
          "Delaying (now s + 1000)" "setReadError i (processedImages s)"]
        assms True Reading in_setReadError_other
      by (simp add: ids_inv_def reader_onerror_def map_update)
  qed (use assms True in \<open>simp_all add: reader_onerror_def\<close>)
qed

lemma ids_inv_stream_end:
  assumes "ids_inv s"
  shows "ids_inv (stream_end b s)"
proof (cases "b < length (tasks s)")
  case False
  then show ?thesis using assms by (simp add: stream_end_def)
next
  case True
  show ?thesis
  proof (cases "phase (tasks s ! b)")
    case (Streaming i fullText)
    show ?thesis
      using agree_terminal[of "processedImages s" "map phase (tasks s)" b i
          "Delaying (now s + 1000)" "setDone i (processedImages s)"]
        assms True Streaming in_setDone_other
      by (simp add: ids_inv_def stream_end_def map_update)
  qed (use assms True in \<open>simp_all add: stream_end_def\<close>)
qed

lemma ids_inv_stream_catch:
  assumes "ids_inv s"
  shows "ids_inv (stream_catch b raw s)"
proof (cases "b < length (tasks s)")
  case False
  then show ?thesis using assms by (simp add: stream_catch_def)
next
  case True
  show ?thesis
  proof (cases "phase (tasks s ! b)")
    case (Requesting i)
    show ?thesis
      using agree_terminal[of "processedImages s" "map phase (tasks s)" b i
          "Delaying (now s + 1000)" "setFailed i (processedImages s)"]
        assms True Requesting in_setFailed_other
      by (simp add: ids_inv_def stream_catch_def map_update)
  next
    case (Streaming i fullText)
    show ?thesis
      using agree_terminal[of "processedImages s" "map phase (tasks s)" b i
          "Delaying (now s + 1000)" "setFailed i (processedImages s)"]
        assms True Streaming in_setFailed_other
      by (simp add: ids_inv_def stream_catch_def map_update)
  qed (use assms True in \<open>simp_all add: stream_catch_def\<close>)
qed

lemma ids_inv_same:
  "ids_inv s \<Longrightarrow> processedImages s' = processedImages s \<Longrightarrow>
   map phase (tasks s') = map phase (tasks s) \<Longrightarrow> ids_inv s'"
  by (simp add: ids_inv_def)

lemma ids_inv_timer_fired:
  assumes "ids_inv s" and "random_id env \<notin> id_img ` set (processedImages s)"
  shows "ids_inv (timer_fired b env s)"
proof (cases "b < length (tasks s)")
  case False
  then show ?thesis using assms by (simp add: timer_fired_def)
next
  case True
  show ?thesis
  proof (cases "phase (tasks s ! b)")
    case (Delaying due)
    define s1 where "s1 = upd_task b (\<lambda>t. t\<lparr>idx := idx t + 1\<rparr>) s"
    have same: "(map phase (tasks s))[b := Delaying due] = map phase (tasks s)"
      by (metis Delaying True length_map list_update_id nth_map)
    have s1: "ids_inv s1" "b < length (tasks s1)" "active (phase (tasks s1 ! b)) = None"
      "random_id env \<notin> id_img ` set (processedImages s1)"
      using assms True Delaying
      by (simp_all add: s1_def ids_inv_def map_update same)
    show ?thesis
    proof (cases "due \<le> now s")
      case False
      then show ?thesis using assms True Delaying by (simp add: timer_fired_def)
    next
      case due: True
      show ?thesis
      proof (cases "idx (tasks s1 ! b) < length (files (tasks s1 ! b))")
        case True
        then show ?thesis
          using ids_inv_processImage[OF s1] \<open>b < length (tasks s)\<close> Delaying due
          by (simp add: timer_fired_def onDrop_next_def Let_def s1_def)
      next
        case False
        have "ids_inv (upd_task b (\<lambda>t. t\<lparr>phase := Finished\<rparr>) s1)"
          using agree_phase[of "processedImages s1" "map phase (tasks s1)" b Finished] s1
            True Delaying
          by (simp add: ids_inv_def map_update s1_def)
        then show ?thesis
          using False \<open>b < length (tasks s)\<close> Delaying due
          by (simp add: timer_fired_def onDrop_next_def Let_def s1_def)
      qed
    qed
  qed (use assms True in \<open>simp_all add: timer_fired_def\<close>)
qed

lemma ids_inv_onDrop:
  assumes "ids_inv s" and "random_id env \<notin> id_img ` set (processedImages s)"
  shows "ids_inv (onDrop acceptedFiles env s)"
proof -
  define s1 where "s1 = s\<lparr>tasks := tasks s @
             [\<lparr>files = acceptedFiles, idx = 0, phase = Finished, begun = [], settled = [],
               requested = [], answered = []\<rparr>]\<rparr>"
  have s1: "ids_inv s1" "length (tasks s) < length (tasks s1)"
    "active (phase (tasks s1 ! length (tasks s))) = None"
    "random_id env \<notin> id_img ` set (processedImages s1)"
    using assms agree_new_task[of "processedImages s" "map phase (tasks s)" Finished]
    by (simp_all add: s1_def ids_inv_def)
  show ?thesis
  proof (cases acceptedFiles)
    case Nil
    have "ids_inv (upd_task (length (tasks s)) (\<lambda>t. t\<lparr>phase := Finished\<rparr>) s1)"
      using s1(1) by (simp add: ids_inv_def s1_def)
    then show ?thesis by (simp add: onDrop_def onDrop_next_def Let_def s1_def Nil)
  next
    case (Cons f fs)
    then show ?thesis
      using ids_inv_processImage[OF s1]
      by (simp add: onDrop_def onDrop_next_def Let_def s1_def)
  qed
qed

lemma ids_inv_click_remove:
  assumes "ids_inv s"
  shows "ids_inv (click_remove k s)"
proof (cases "k < length (processedImages s) \<and> \<not> isProcessing (processedImages s ! k)")
  case False
  then show ?thesis using assms by (auto simp: click_remove_def)
next
  case True
  then show ?thesis
    using agree_remove[of "processedImages s" "map phase (tasks s)" k] assms
    by (simp add: ids_inv_def click_remove_def removeImage_def setSelectedImage_def Let_def)
qed

lemma ids_inv_step:
  assumes "ids_inv s" and "set (draw_of st) \<inter> id_img ` set (processedImages s) = {}"
  shows "ids_inv (step st s)"
proof (cases st)
  case (Drop acceptedFiles env)
  then show ?thesis using ids_inv_onDrop[OF assms(1)] assms(2) by simp
next
  case (FileLoad b)
  then show ?thesis using ids_inv_reader_onload[OF assms(1)] by simp
next
  case (FileError b)
  then show ?thesis using ids_inv_reader_onerror[OF assms(1)] by simp
next
  case (StreamOpen b)
  then show ?thesis using ids_inv_stream_open[OF assms(1)] by simp
next
  case (StreamChunk b c)
  then show ?thesis using ids_inv_stream_chunk[OF assms(1)] by simp
next
  case (StreamEnd b)
  then show ?thesis using ids_inv_stream_end[OF assms(1)] by simp
next
  case (StreamThrow b raw)
  then show ?thesis using ids_inv_stream_catch[OF assms(1)] by simp
next
  case (Timeout b env)
  then show ?thesis using ids_inv_timer_fired[OF assms(1)] assms(2) by simp
next
  case (Tick d)
  then show ?thesis using assms(1) by (simp add: ids_inv_def)
next
  case (ClickCard k)
  then show ?thesis
    using assms(1) by (auto intro: ids_inv_same simp: click_card_def setSelectedImage_def)
next
  case (ClickShowMore k)
  then show ?thesis
    using assms(1) by (auto intro: ids_inv_same simp: click_show_more_def setSelectedImage_def)
next
  case ClickClose
  then show ?thesis
    using assms(1) by (auto intro: ids_inv_same simp: click_close_def setSelectedImage_def)
next
  case (ClickCopy k)
  then show ?thesis
    using assms(1) by (auto intro: ids_inv_same simp: click_copy_def copyToClipboard_def)
next
  case (ClickDownload k)
  then show ?thesis
    using assms(1) by (auto intro: ids_inv_same simp: click_download_def)
next
  case (ClickRemove k)
  then show ?thesis using ids_inv_click_remove[OF assms(1)] by simp
qed

lemma subseq_set: "subseq xs ys \<Longrightarrow> set xs \<subseteq> set ys"
  using list_emb_set[of "(=)" xs ys] by auto

lemma ids_inv_run:
  assumes "ids_inv s" and "distinct (draws ss)"
    and "set (draws ss) \<inter> id_img ` set (processedImages s) = {}"
  shows "ids_inv (run ss s)"
  using assms
proof (induction ss arbitrary: s)
  case Nil
  then show ?case by (simp add: run_def)
next
  case (Cons st ss)
  have d: "draws (st # ss) = draw_of st @ draws ss" by (simp add: draws_def)
  have 1: "ids_inv (step st s)"
    using ids_inv_step[OF Cons.prems(1)] Cons.prems(3) unfolding d by auto
  have "set (map id_img (processedImages (step st s)))
          \<subseteq> set (map id_img (processedImages s) @ draw_of st)"
    using subseq_set[OF ids_step[of st s]] .
  then have 2: "set (draws ss) \<inter> id_img ` set (processedImages (step st s)) = {}"
    using Cons.prems(2,3) unfolding d by auto
  have 3: "distinct (draws ss)" using Cons.prems(2) unfolding d by simp
  show ?case using Cons.IH[OF 1 3 2] by (simp add: run_def)
qed

lemma ids_inv_init: "ids_inv init"
  by (simp add: ids_inv_def agree_def init_def)

section \<open>A record that is no longer processing\<close>

lemma filter_id_updaters:
  "j \<noteq> i \<Longrightarrow> filter (\<lambda>r. id_img r = i) (setText j fullText prev) = filter (\<lambda>r. id_img r = i) prev"
  "j \<noteq> i \<Longrightarrow> filter (\<lambda>r. id_img r = i) (setDone j prev) = filter (\<lambda>r. id_img r = i) prev"
  "j \<noteq> i \<Longrightarrow> filter (\<lambda>r. id_img r = i) (setFailed j prev) = filter (\<lambda>r. id_img r = i) prev"
  "j \<noteq> i \<Longrightarrow> filter (\<lambda>r. id_img r = i) (setReadError j prev) = filter (\<lambda>r. id_img r = i) prev"
  "j \<noteq> i \<Longrightarrow> filter (\<lambda>r. id_img r = i) (appendImage j n u prev) = filter (\<lambda>r. id_img r = i) prev"
  unfolding setText_def setDone_def setFailed_def setReadError_def appendImage_def newImage_def
  by (induction prev) auto

lemma filter_id_dropImage:
  "filter (\<lambda>r. id_img r = i) (dropImage j prev)
     = (if j = i then [] else filter (\<lambda>r. id_img r = i) prev)"
  unfolding dropImage_def by (induction prev) auto

lemma quiet_update:
  assumes "quiet i s" and "tasks s' = (tasks s)[b := t']" and "active (phase t') \<noteq> Some i"
  shows "quiet i s'"
  unfolding quiet_def
proof (intro allI impI)
  fix x
  assume "x < length (tasks s')"
  then have x: "x < length (tasks s)" using assms(2) by simp
  show "active (phase (tasks s' ! x)) \<noteq> Some i"
  proof (cases "x = b")
    case True
    then show ?thesis using assms(2,3) x by simp
  next
    case False
    then show ?thesis using assms(1,2) x by (simp add: quiet_def)
  qed
qed

lemma quiet_same: "quiet i s \<Longrightarrow> map phase (tasks s') = map phase (tasks s) \<Longrightarrow> quiet i s'"
proof -
  assume q: "quiet i s" and m: "map phase (tasks s') = map phase (tasks s)"
  have l: "length (tasks s') = length (tasks s)" using m by (metis length_map)
  have "phase (tasks s' ! b) = phase (tasks s ! b)" if "b < length (tasks s)" for b
    using that m l by (metis nth_map)
  then show ?thesis using q l unfolding quiet_def by simp
qed

lemma quietD: "quiet i s \<Longrightarrow> b < length (tasks s) \<Longrightarrow> active (phase (tasks s ! b)) \<noteq> Some i"
  by (simp add: quiet_def)

lemma quiet_processImage:
  assumes "quiet i s" and "random_id env \<noteq> i"
  shows "quiet i (processImage b f env s)
         \<and> filter (\<lambda>r. id_img r = i) (processedImages (processImage b f env s))
             = filter (\<lambda>r. id_img r = i) (processedImages s)"
proof
  show "quiet i (processImage b f env s)"
  proof (cases "setup_error env")
    case None
    show ?thesis
      by (rule quiet_update[OF assms(1), where b = b],
          simp add: processImage_def Let_def None, simp add: assms(2))
  next
    case (Some raw)
    show ?thesis
      by (rule quiet_update[OF assms(1), where b = b],
          simp add: processImage_def Let_def Some, simp)
  qed
  show "filter (\<lambda>r. id_img r = i) (processedImages (processImage b f env s))
             = filter (\<lambda>r. id_img r = i) (processedImages s)"
    using assms(2) by (simp add: store_processImage filter_id_updaters split: option.splits)
qed

lemma quiet_callbacks:
  assumes "quiet i s"
  shows "quiet i (reader_onload b s)
         \<and> filter (\<lambda>r. id_img r = i) (processedImages (reader_onload b s))
             = filter (\<lambda>r. id_img r = i) (processedImages s)"
    and "quiet i (reader_onerror b s)
         \<and> filter (\<lambda>r. id_img r = i) (processedImages (reader_onerror b s))
             = filter (\<lambda>r. id_img r = i) (processedImages s)"
    and "quiet i (stream_open b s)
         \<and> filter (\<lambda>r. id_img r = i) (processedImages (stream_open b s))
             = filter (\<lambda>r. id_img r = i) (processedImages s)"
    and "quiet i (stream_chunk b c s)
         \<and> filter (\<lambda>r. id_img r = i) (processedImages (stream_chunk b c s))
             = filter (\<lambda>r. id_img r = i) (processedImages s)"
    and "quiet i (stream_end b s)
         \<and> filter (\<lambda>r. id_img r = i) (processedImages (stream_end b s))
             = filter (\<lambda>r. id_img r = i) (processedImages s)"
    and "quiet i (stream_catch b raw s)
         \<and> filter (\<lambda>r. id_img r = i) (processedImages (stream_catch b raw s))
             = filter (\<lambda>r. id_img r = i) (processedImages s)"
proof -
  have n: "active (phase (tasks s ! b)) \<noteq> Some i" if "b < length (tasks s)"
    using quietD[OF assms that] .
  show "quiet i (reader_onload b s)
         \<and> filter (\<lambda>r. id_img r = i) (processedImages (reader_onload b s))
             = filter (\<lambda>r. id_img r = i) (processedImages s)"
  proof (cases "b < length (tasks s)")
    case True
    then show ?thesis
      using assms n[OF True]
      by (cases "phase (tasks s ! b)")
         (auto simp: reader_onload_def intro: quiet_update[OF assms])
  qed (use assms in \<open>simp add: reader_onload_def\<close>)
  show "quiet i (reader_onerror b s)
         \<and> filter (\<lambda>r. id_img r = i) (processedImages (reader_onerror b s))
             = filter (\<lambda>r. id_img r = i) (processedImages s)"
  proof (cases "b < length (tasks s)")
    case True
    then show ?thesis
      using assms n[OF True]
      by (cases "phase (tasks s ! b)")
         (auto simp: reader_onerror_def filter_id_updaters intro: quiet_update[OF assms])
  qed (use assms in \<open>simp add: reader_onerror_def\<close>)
  show "quiet i (stream_open b s)
         \<and> filter (\<lambda>r. id_img r = i) (processedImages (stream_open b s))
             = filter (\<lambda>r. id_img r = i) (processedImages s)"
  proof (cases "b < length (tasks s)")
    case True
    then show ?thesis
      using assms n[OF True]
      by (cases "phase (tasks s ! b)")
         (auto simp: stream_open_def intro: quiet_update[OF assms])
  qed (use assms in \<open>simp add: stream_open_def\<close>)
  show "quiet i (stream_chunk b c s)
         \<and> filter (\<lambda>r. id_img r = i) (processedImages (stream_chunk b c s))
             = filter (\<lambda>r. id_img r = i) (processedImages s)"
  proof (cases "b < length (tasks s)")
    case True
    then show ?thesis
      using assms n[OF True]
      by (cases "phase (tasks s ! b)")
         (auto simp: stream_chunk_def filter_id_updaters intro: quiet_update[OF assms])
  qed (use assms in \<open>simp add: stream_chunk_def\<close>)
  show "quiet i (stream_end b s)
         \<and> filter (\<lambda>r. id_img r = i) (processedImages (stream_end b s))
             = filter (\<lambda>r. id_img r = i) (processedImages s)"
  proof (cases "b < length (tasks s)")
    case True
    then show ?thesis
      using assms n[OF True]
      by (cases "phase (tasks s ! b)")
         (auto simp: stream_end_def filter_id_updaters intro: quiet_update[OF assms])
  qed (use assms in \<open>simp add: stream_end_def\<close>)
  show "quiet i (stream_catch b raw s)
         \<and> filter (\<lambda>r. id_img r = i) (processedImages (stream_catch b raw s))
             = filter (\<lambda>r. id_img r = i) (processedImages s)"
  proof (cases "b < length (tasks s)")
    case True
    then show ?thesis
      using assms n[OF True]
      by (cases "phase (tasks s ! b)")
         (auto simp: stream_catch_def filter_id_updaters intro: quiet_update[OF assms])
  qed (use assms in \<open>simp add: stream_catch_def\<close>)
qed

lemma quiet_timer_fired:
  assumes "quiet i s" and "random_id env \<noteq> i"
  shows "quiet i (timer_fired b env s)
         \<and> filter (\<lambda>r. id_img r = i) (processedImages (timer_fired b env s))
             = filter (\<lambda>r. id_img r = i) (processedImages s)"
proof (cases "b < length (tasks s)")
  case False
  then show ?thesis using assms by (simp add: timer_fired_def)
next
  case True
  show ?thesis
  proof (cases "phase (tasks s ! b)")
    case (Delaying due)
    define s1 where "s1 = upd_task b (\<lambda>t. t\<lparr>idx := idx t + 1\<rparr>) s"
    have q1: "quiet i s1"
      by (rule quiet_update[OF assms(1), where b = b], simp add: s1_def,
          simp add: Delaying)
    have st: "processedImages s1 = processedImages s" by (simp add: s1_def)
    show ?thesis
    proof (cases "due \<le> now s")
      case False
      then show ?thesis using assms True Delaying by (simp add: timer_fired_def)
    next
      case due: True
      show ?thesis
      proof (cases "idx (tasks s1 ! b) < length (files (tasks s1 ! b))")
        case more: True
        then show ?thesis
          using quiet_processImage[OF q1 assms(2)] True Delaying due st
          by (simp add: timer_fired_def onDrop_next_def Let_def s1_def)
      next
        case False
        have "quiet i (upd_task b (\<lambda>t. t\<lparr>phase := Finished\<rparr>) s1)"
          by (rule quiet_update[OF q1, where b = b], simp, simp)
        then show ?thesis
          using False True Delaying due st
          by (simp add: timer_fired_def onDrop_next_def Let_def s1_def)
      qed
    qed
  qed (use assms True in \<open>simp_all add: timer_fired_def\<close>)
qed

lemma quiet_onDrop:
  assumes "quiet i s" and "random_id env \<noteq> i"
  shows "quiet i (onDrop acceptedFiles env s)
         \<and> filter (\<lambda>r. id_img r = i) (processedImages (onDrop acceptedFiles env s))
             = filter (\<lambda>r. id_img r = i) (processedImages s)"
proof -
  define s1 where "s1 = s\<lparr>tasks := tasks s @
             [\<lparr>files = acceptedFiles, idx = 0, phase = Finished, begun = [], settled = [],
               requested = [], answered = []\<rparr>]\<rparr>"
  have q1: "quiet i s1"
    using assms(1) unfolding quiet_def s1_def by (auto simp: nth_append less_Suc_eq)
  have st: "processedImages s1 = processedImages s" by (simp add: s1_def)
  show ?thesis
  proof (cases acceptedFiles)
    case Nil
    have "quiet i (upd_task (length (tasks s)) (\<lambda>t. t\<lparr>phase := Finished\<rparr>) s1)"
      by (rule quiet_update[OF q1, where b = "length (tasks s)"], simp, simp)
    then show ?thesis using st by (simp add: onDrop_def onDrop_next_def Let_def s1_def Nil)
  next
    case (Cons f fs)
    then show ?thesis
      using quiet_processImage[OF q1 assms(2)] st
      by (simp add: onDrop_def onDrop_next_def Let_def s1_def)
  qed
qed

lemma frozen_step:
  assumes "quiet i s" and "i \<notin> set (draw_of st)"
  shows "quiet i (step st s)
         \<and> (filter (\<lambda>r. id_img r = i) (processedImages (step st s))
               = filter (\<lambda>r. id_img r = i) (processedImages s)
            \<or> filter (\<lambda>r. id_img r = i) (processedImages (step st s)) = [])"
proof (cases st)
  case (Drop acceptedFiles env)
  then show ?thesis using quiet_onDrop[OF assms(1), of env acceptedFiles] assms(2) by auto
next
  case (FileLoad b)
  then show ?thesis using quiet_callbacks(1)[OF assms(1)] by simp
next
  case (FileError b)
  then show ?thesis using quiet_callbacks(2)[OF assms(1)] by simp
next
  case (StreamOpen b)
  then show ?thesis using quiet_callbacks(3)[OF assms(1)] by simp
next
  case (StreamChunk b c)
  then show ?thesis using quiet_callbacks(4)[OF assms(1)] by simp
next
  case (StreamEnd b)
  then show ?thesis using quiet_callbacks(5)[OF assms(1)] by simp
next
  case (StreamThrow b raw)
  then show ?thesis using quiet_callbacks(6)[OF assms(1)] by simp
next
  case (Timeout b env)
  then show ?thesis using quiet_timer_fired[OF assms(1), of env b] assms(2) by auto
next
  case (Tick d)
  then show ?thesis using assms(1) by (simp add: quiet_def)
next
  case (ClickCard k)
  then show ?thesis
    using assms(1) by (auto intro: quiet_same simp: click_card_def setSelectedImage_def)
next
  case (ClickShowMore k)
  then show ?thesis
    using assms(1) by (auto intro: quiet_same simp: click_show_more_def setSelectedImage_def)
next
  case ClickClose
  then show ?thesis
    using assms(1) by (auto intro: quiet_same simp: click_close_def setSelectedImage_def)
next
  case (ClickCopy k)
  then show ?thesis
    using assms(1) by (auto intro: quiet_same simp: click_copy_def copyToClipboard_def)
next
  case (ClickDownload k)
  then show ?thesis
    using assms(1) by (auto intro: quiet_same simp: click_download_def)
next
  case (ClickRemove k)
  have "quiet i (click_remove k s)"
    using assms(1)
    by (auto intro: quiet_same simp: click_remove_def removeImage_def setSelectedImage_def Let_def)
  moreover have "filter (\<lambda>r. id_img r = i) (processedImages (click_remove k s))
               = filter (\<lambda>r. id_img r = i) (processedImages s)
            \<or> filter (\<lambda>r. id_img r = i) (processedImages (click_remove k s)) = []"
    by (simp add: click_remove_def filter_id_dropImage)
  ultimately show ?thesis using ClickRemove by simp
qed

lemma frozen_run:
  assumes "quiet i s" and "i \<notin> set (draws ss)"
  shows "filter (\<lambda>r. id_img r = i) (processedImages (run ss s))
               = filter (\<lambda>r. id_img r = i) (processedImages s)
         \<or> filter (\<lambda>r. id_img r = i) (processedImages (run ss s)) = []"
  using assms
proof (induction ss arbitrary: s)
  case Nil
  then show ?case by (simp add: run_def)
next
  case (Cons st ss)
  have d: "i \<notin> set (draw_of st)" "i \<notin> set (draws ss)"
    using Cons.prems(2) by (simp_all add: draws_def)
  note f = frozen_step[OF Cons.prems(1) d(1)]
  have r: "run (st # ss) s = run ss (step st s)" by (simp add: run_def)
  from Cons.IH[OF conjunct1[OF f] d(2)] conjunct2[OF f]
  show ?case unfolding r by auto
qed

lemma done_updaters:
  assumes "k < length prev" and "\<not> isProcessing (prev ! k)"
  shows "\<not> isProcessing (setText i fullText prev ! k)"
    and "\<not> isProcessing (setDone i prev ! k)"
    and "\<not> isProcessing (setFailed i prev ! k)"
    and "\<not> isProcessing (setReadError i prev ! k)"
    and "\<not> isProcessing (appendImage i n u prev ! k)"
    and "\<not> isProcessing (setFailed i (appendImage i n u prev) ! k)"
  using assms
  by (simp_all add: setText_def setDone_def setFailed_def setReadError_def appendImage_def
      nth_append)

lemma done_step:
  assumes "\<forall>k'. st \<noteq> ClickRemove k'"
    and "k < length (processedImages s)" and "\<not> isProcessing (processedImages s ! k)"
  shows "k < length (processedImages (step st s))
         \<and> \<not> isProcessing (processedImages (step st s) ! k)"
proof (cases st)
  case (Drop acceptedFiles env)
  then show ?thesis
    using assms(2,3) done_updaters(5,6)[OF assms(2,3)]
    by (cases acceptedFiles)
       (simp_all add: onDrop_def onDrop_next_def Let_def store_processImage
          split: option.splits)
next
  case (FileError b)
  then show ?thesis
    using assms(2,3) done_updaters(4)[OF assms(2,3)]
    by (simp add: reader_onerror_def split: phase.splits)
next
  case (StreamChunk b c)
  then show ?thesis
    using assms(2,3) done_updaters(1)[OF assms(2,3)]
    by (simp add: stream_chunk_def split: phase.splits)
next
  case (StreamEnd b)
  then show ?thesis
    using assms(2,3) done_updaters(2)[OF assms(2,3)]
    by (simp add: stream_end_def split: phase.splits)
next
  case (StreamThrow b raw)
  then show ?thesis
    using assms(2,3) done_updaters(3)[OF assms(2,3)]
    by (simp add: stream_catch_def split: phase.splits)
next
  case (Timeout b env)
  then show ?thesis
    using assms(2,3) done_updaters(5,6)[OF assms(2,3)]
    by (simp add: timer_fired_def onDrop_next_def Let_def store_processImage
        split: phase.splits option.splits)
next
  case (ClickRemove k')
  then show ?thesis using assms(1) by simp
qed (use assms(2,3) in simp_all)

lemma done_run:
  assumes "\<forall>k'. ClickRemove k' \<notin> set ss"
    and "k < length (processedImages s)" and "\<not> isProcessing (processedImages s ! k)"
  shows "k < length (processedImages (run ss s))
         \<and> \<not> isProcessing (processedImages (run ss s) ! k)"
  using assms
proof (induction ss arbitrary: s)
  case Nil
  then show ?case by (simp add: run_def)
next
  case (Cons st ss)
  have a: "\<forall>k'. st \<noteq> ClickRemove k'" and b: "\<forall>k'. ClickRemove k' \<notin> set ss"
    using Cons.prems(1) by auto
  note d = done_step[OF a Cons.prems(2,3)]
  show ?case using Cons.IH[OF b conjunct1[OF d] conjunct2[OF d]] by (simp add: run_def)
qed

lemma filter_distinct_same:
  "distinct (map f xs) \<Longrightarrow> r \<in> set xs \<Longrightarrow> filter (\<lambda>x. f x = f r) xs = [r]"
proof (induction xs)
  case Nil
  then show ?case by simp
next
  case (Cons x xs)
  show ?case
  proof (cases "x = r")
    case True
    then have "\<forall>y \<in> set xs. f y \<noteq> f r" using Cons.prems(1) by (simp add: image_iff) metis
    then have "filter (\<lambda>x. f x = f r) xs = []" by (simp add: filter_empty_conv)
    then show ?thesis using True by simp
  next
    case False
    then have r: "r \<in> set xs" using Cons.prems(2) by simp
    then have "f x \<noteq> f r" using Cons.prems(1) by (auto simp: image_iff)
    then show ?thesis using Cons.IH r Cons.prems(1) by simp
  qed
qed

lemma draws_append: "draws (ss1 @ ss2) = draws ss1 @ draws ss2"
  by (simp add: draws_def)

lemma done_record_is_quiet:
  assumes "ids_inv s" and "r \<in> set (processedImages s)" and "\<not> isProcessing r"
  shows "quiet (id_img r) s"
  unfolding quiet_def
proof (intro allI impI notI)
  fix b
  assume b: "b < length (tasks s)" and a: "active (phase (tasks s ! b)) = Some (id_img r)"
  have ag: "agree (processedImages s) (map phase (tasks s))" using assms(1) by (simp add: ids_inv_def)
  from agree_recordD[OF ag, of b "id_img r"] b a
  obtain r' where r': "r' \<in> set (processedImages s)" "id_img r' = id_img r" "isProcessing r'"
    by auto
  have "r' = r"
    using agree_distinctD[OF ag] r'(1,2) assms(2) by (meson distinct_map inj_onD)
  then show False using r'(3) assms(3) by simp
qed

text \<open>
  Claim C4, as amended. No update of the list sets \<^verbatim>\<open>isProcessing\<close> back: along any stimuli
  other than removals, the record at a position that is not processing stays at that
  position and stays not processing. And in a session whose draws of ids are pairwise
  distinct, a record that is not processing never changes again in any field: from then on
  the records of the list with its id are that record alone, until a removal takes it out.
\<close>

theorem finished_record_stays:
  "((\<forall>k'. ClickRemove k' \<notin> set ss) \<and> k < length (processedImages s)
       \<and> \<not> isProcessing (processedImages s ! k)
      \<longrightarrow> k < length (processedImages (run ss s))
          \<and> \<not> isProcessing (processedImages (run ss s) ! k))
   \<and> (distinct (draws (ss1 @ ss2)) \<and> r \<in> set (processedImages (run ss1 init))
       \<and> \<not> isProcessing r
      \<longrightarrow> filter (\<lambda>x. id_img x = id_img r) (processedImages (run ss2 (run ss1 init))) = [r]
          \<or> filter (\<lambda>x. id_img x = id_img r) (processedImages (run ss2 (run ss1 init))) = [])"
proof (rule conjI; rule impI)
  assume "(\<forall>k'. ClickRemove k' \<notin> set ss) \<and> k < length (processedImages s)
       \<and> \<not> isProcessing (processedImages s ! k)"
  then show "k < length (processedImages (run ss s))
          \<and> \<not> isProcessing (processedImages (run ss s) ! k)"
    using done_run[of ss k s] by blast
next
  assume h: "distinct (draws (ss1 @ ss2)) \<and> r \<in> set (processedImages (run ss1 init))
       \<and> \<not> isProcessing r"
  then have d: "distinct (draws ss1)" "distinct (draws ss2)"
    "set (draws ss1) \<inter> set (draws ss2) = {}"
    by (simp_all add: draws_append)
  have inv: "ids_inv (run ss1 init)"
    using ids_inv_run[OF ids_inv_init d(1)] by (simp add: init_def)
  have q: "quiet (id_img r) (run ss1 init)"
    using done_record_is_quiet[OF inv] h by blast
  have "set (map id_img (processedImages (run ss1 init))) \<subseteq> set (draws ss1)"
    using subseq_set[OF ids_run[of ss1 init]] by (simp add: init_def)
  then have "id_img r \<in> set (draws ss1)" using h by auto
  then have n: "id_img r \<notin> set (draws ss2)" using d(3) by auto
  have one: "filter (\<lambda>x. id_img x = id_img r) (processedImages (run ss1 init)) = [r]"
    using filter_distinct_same[of id_img "processedImages (run ss1 init)" r] inv h
    by (simp add: ids_inv_def agree_def)
  show "filter (\<lambda>x. id_img x = id_img r) (processedImages (run ss2 (run ss1 init))) = [r]
          \<or> filter (\<lambda>x. id_img x = id_img r) (processedImages (run ss2 (run ss1 init))) = []"
    using frozen_run[OF q n] one by simp
qed

text \<open>
  The claim as stated fails: the second file of the batch draws the id of the first, and its
  chunk replaces the text of the first record, which had stopped processing.
\<close>

theorem colliding_ids_counterexample:
  "\<not> isProcessing (processedImages (run colliding_first init) ! 0)
   \<and> name (processedImages (run colliding_first init) ! 0) = ''receipt.png''
   \<and> text_img (processedImages (run colliding_first init) ! 0) = ''Total 12''
   \<and> name (processedImages (run colliding_second (run colliding_first init)) ! 0)
       = ''receipt.png''
   \<and> text_img (processedImages (run colliding_second (run colliding_first init)) ! 0)
       = ''Page 2''"
  by code_simp

text \<open>
  The statement at the first record of a batch of two, along the processing of the second.
\<close>

theorem finished_record_stays_witness:
  "(\<forall>k'. ClickRemove k' \<notin> set second_part)
   \<and> 0 < length (processedImages (run first_part init))
   \<and> \<not> isProcessing (processedImages (run first_part init) ! 0)
   \<and> \<not> isProcessing (processedImages (run second_part (run first_part init)) ! 0)
   \<and> distinct (draws (first_part @ second_part))
   \<and> processedImages (run first_part init) ! 0 \<in> set (processedImages (run first_part init))
   \<and> (filter (\<lambda>x. id_img x = id_img (processedImages (run first_part init) ! 0))
         (processedImages (run second_part (run first_part init)))
        = [processedImages (run first_part init) ! 0]
      \<or> filter (\<lambda>x. id_img x = id_img (processedImages (run first_part init) ! 0))
         (processedImages (run second_part (run first_part init))) = [])"
proof -
  have a: "\<forall>k'. ClickRemove k' \<notin> set second_part" by (simp add: second_part_def)
  have b: "0 < length (processedImages (run first_part init))" by code_simp
  have c: "\<not> isProcessing (processedImages (run first_part init) ! 0)" by code_simp
  have d: "distinct (draws (first_part @ second_part))" by code_simp
  have e: "processedImages (run first_part init) ! 0 \<in> set (processedImages (run first_part init))"
    by code_simp
  note t = finished_record_stays[of second_part 0 "run first_part init" first_part second_part
      "processedImages (run first_part init) ! 0"]
  have f: "\<not> isProcessing (processedImages (run second_part (run first_part init)) ! 0)"
    using t a b c by blast
  have g: "filter (\<lambda>x. id_img x = id_img (processedImages (run first_part init) ! 0))
         (processedImages (run second_part (run first_part init)))
        = [processedImages (run first_part init) ! 0]
      \<or> filter (\<lambda>x. id_img x = id_img (processedImages (run first_part init) ! 0))
         (processedImages (run second_part (run first_part init))) = []"
    using t c d e by blast
  show ?thesis using a b c d e f g by blast
qed


section \<open>What one stimulus does\<close>

lemma effect_reader_onload:
  "effect ds (processedImages s) (map phase (tasks s))
     (processedImages (reader_onload b s)) (map phase (tasks (reader_onload b s)))"
proof (cases "b < length (tasks s)")
  case False
  then show ?thesis by (simp add: reader_onload_def effect.Same)
next
  case True
  show ?thesis
  proof (cases "phase (tasks s ! b)")
    case (Reading i)
    show ?thesis
      using effect.Phase[of b "map phase (tasks s)" "Requesting i" ds "processedImages s"]
        True Reading
      by (simp add: reader_onload_def map_update)
  qed (use True in \<open>simp_all add: reader_onload_def effect.Same\<close>)
qed

lemma effect_stream_open:
  "effect ds (processedImages s) (map phase (tasks s))
     (processedImages (stream_open b s)) (map phase (tasks (stream_open b s)))"
proof (cases "b < length (tasks s)")
  case False
  then show ?thesis by (simp add: stream_open_def effect.Same)
next
  case True
  show ?thesis
  proof (cases "phase (tasks s ! b)")
    case (Requesting i)
    show ?thesis
      using effect.Phase[of b "map phase (tasks s)" "Streaming i []" ds "processedImages s"]
        True Requesting
      by (simp add: stream_open_def map_update)
  qed (use True in \<open>simp_all add: stream_open_def effect.Same\<close>)
qed

lemma effect_stream_chunk:
  "effect ds (processedImages s) (map phase (tasks s))
     (processedImages (stream_chunk b c s)) (map phase (tasks (stream_chunk b c s)))"
proof (cases "b < length (tasks s)")
  case False
  then show ?thesis by (simp add: stream_chunk_def effect.Same)
next
  case True
  show ?thesis
  proof (cases "phase (tasks s ! b)")
    case (Streaming i fullText)
    show ?thesis
      using effect.Chunk[of b "map phase (tasks s)" i ds "processedImages s" "fullText @ c"]
        True Streaming
      by (simp add: stream_chunk_def map_update)
  qed (use True in \<open>simp_all add: stream_chunk_def effect.Same\<close>)
qed

lemma effect_reader_onerror:
  "effect ds (processedImages s) (map phase (tasks s))
     (processedImages (reader_onerror b s)) (map phase (tasks (reader_onerror b s)))"
proof (cases "b < length (tasks s)")
  case False
  then show ?thesis by (simp add: reader_onerror_def effect.Same)
next
  case True
  show ?thesis
  proof (cases "phase (tasks s ! b)")
    case (Reading i)
    show ?thesis
      using effect.Terminal[of b "map phase (tasks s)" i "Delaying (now s + 1000)"
          "setReadError i (processedImages s)" "processedImages s" ds]
        True Reading
      by (simp add: reader_onerror_def map_update)
  qed (use True in \<open>simp_all add: reader_onerror_def effect.Same\<close>)
qed

lemma effect_stream_end:
  "effect ds (processedImages s) (map phase (tasks s))
     (processedImages (stream_end b s)) (map phase (tasks (stream_end b s)))"
proof (cases "b < length (tasks s)")
  case False
  then show ?thesis by (simp add: stream_end_def effect.Same)
next
  case True
  show ?thesis
  proof (cases "phase (tasks s ! b)")
    case (Streaming i fullText)
    show ?thesis
      using effect.Terminal[of b "map phase (tasks s)" i "Delaying (now s + 1000)"
          "setDone i (processedImages s)" "processedImages s" ds]
        True Streaming
      by (simp add: stream_end_def map_update)
  qed (use True in \<open>simp_all add: stream_end_def effect.Same\<close>)
qed

lemma effect_stream_catch:
  "effect ds (processedImages s) (map phase (tasks s))
     (processedImages (stream_catch b raw s)) (map phase (tasks (stream_catch b raw s)))"
proof (cases "b < length (tasks s)")
  case False
  then show ?thesis by (simp add: stream_catch_def effect.Same)
next
  case True
  show ?thesis
  proof (cases "phase (tasks s ! b)")
    case (Requesting i)
    show ?thesis
      using effect.Terminal[of b "map phase (tasks s)" i "Delaying (now s + 1000)"
          "setFailed i (processedImages s)" "processedImages s" ds]
        True Requesting
      by (simp add: stream_catch_def map_update)
  next
    case (Streaming i fullText)
    show ?thesis
      using effect.Terminal[of b "map phase (tasks s)" i "Delaying (now s + 1000)"
          "setFailed i (processedImages s)" "processedImages s" ds]
        True Streaming
      by (simp add: stream_catch_def map_update)
  qed (use True in \<open>simp_all add: stream_catch_def effect.Same\<close>)
qed

lemma effect_timer_fired:
  "effect (taken (Timeout b env) s) (processedImages s) (map phase (tasks s))
     (processedImages (timer_fired b env s)) (map phase (tasks (timer_fired b env s)))"
proof (cases "b < length (tasks s)")
  case False
  then show ?thesis by (simp add: timer_fired_def effect.Same)
next
  case True
  show ?thesis
  proof (cases "phase (tasks s ! b)")
    case (Delaying due)
    have same: "(map phase (tasks s))[b := Delaying due] = map phase (tasks s)"
      by (metis Delaying True length_map list_update_id nth_map)
    show ?thesis
    proof (cases "due \<le> now s")
      case False
      then show ?thesis using True Delaying by (simp add: timer_fired_def effect.Same)
    next
      case due: True
      show ?thesis
      proof (cases "Suc (idx (tasks s ! b)) < length (files (tasks s ! b))")
        case False
        show ?thesis
          using effect.Phase[of b "map phase (tasks s)" Finished
              "taken (Timeout b env) s" "processedImages s"]
            True Delaying due False
          by (simp add: timer_fired_def onDrop_next_def Let_def map_update)
      next
        case more: True
        have tk: "taken (Timeout b env) s = [random_id env]"
          using True Delaying due more by (simp add: taken_def)
        show ?thesis
        proof (cases "setup_error env")
          case None
          show ?thesis
            using effect.Begin[of b "map phase (tasks s)" "random_id env"
                "[random_id env]" "processedImages s" "file_name (files (tasks s ! b) ! Suc (idx (tasks s ! b)))"
                "object_url env"]
              True Delaying due more None
            unfolding tk
            by (simp add: timer_fired_def onDrop_next_def Let_def map_update
                phases_processImage store_processImage)
        next
          case (Some raw)
          show ?thesis
            using effect.BeginFailed[of b "map phase (tasks s)" "Delaying (now s + 1000)"
                "random_id env" "[random_id env]" "processedImages s"
                "file_name (files (tasks s ! b) ! Suc (idx (tasks s ! b)))" "object_url env"]
              True Delaying due more Some
            unfolding tk
            by (simp add: timer_fired_def onDrop_next_def Let_def map_update
                phases_processImage store_processImage)
        qed
      qed
    qed
  qed (use True in \<open>simp_all add: timer_fired_def effect.Same\<close>)
qed

lemma effect_onDrop:
  "effect (taken (Drop acceptedFiles env) s) (processedImages s) (map phase (tasks s))
     (processedImages (onDrop acceptedFiles env s))
     (map phase (tasks (onDrop acceptedFiles env s)))"
proof (cases acceptedFiles)
  case Nil
  show ?thesis
    using effect.NewTask[of Finished "taken (Drop [] env) s" "processedImages s"
        "map phase (tasks s)"]
    by (simp add: Nil onDrop_def onDrop_next_def Let_def)
next
  case (Cons f fs)
  have tk: "taken (Drop (f # fs) env) s = [random_id env]" by (simp add: taken_def)
  have up: "(map phase (tasks s) @ [Finished])[length (tasks s) := p]
              = map phase (tasks s) @ [p]" for p
    by (metis length_map list_update_length)
  show ?thesis
  proof (cases "setup_error env")
    case None
    show ?thesis
      using effect.NewBegin[of "random_id env" "[random_id env]" "processedImages s"
          "map phase (tasks s)" "file_name f" "object_url env"]
      unfolding Cons tk
      by (simp add: onDrop_def onDrop_next_def Let_def None phases_processImage
          store_processImage up)
  next
    case (Some raw)
    show ?thesis
      using effect.NewBeginFailed[of "Delaying (now s + 1000)" "random_id env"
          "[random_id env]" "processedImages s" "map phase (tasks s)" "file_name f"
          "object_url env"]
      unfolding Cons tk
      by (simp add: onDrop_def onDrop_next_def Let_def Some phases_processImage
          store_processImage up)
  qed
qed

lemma effect_step:
  "effect (taken st s) (processedImages s) (map phase (tasks s))
     (processedImages (step st s)) (map phase (tasks (step st s)))"
proof (cases st)
  case (Drop acceptedFiles env)
  then show ?thesis using effect_onDrop by simp
next
  case (FileLoad b)
  then show ?thesis using effect_reader_onload by simp
next
  case (FileError b)
  then show ?thesis using effect_reader_onerror by simp
next
  case (StreamOpen b)
  then show ?thesis using effect_stream_open by simp
next
  case (StreamChunk b c)
  then show ?thesis using effect_stream_chunk by simp
next
  case (StreamEnd b)
  then show ?thesis using effect_stream_end by simp
next
  case (StreamThrow b raw)
  then show ?thesis using effect_stream_catch by simp
next
  case (Timeout b env)
  then show ?thesis using effect_timer_fired by simp
next
  case (Tick d)
  then show ?thesis by (simp add: effect.Same)
next
  case (ClickCard k)
  then show ?thesis by (simp add: click_card_def setSelectedImage_def effect.Same)
next
  case (ClickShowMore k)
  then show ?thesis by (simp add: click_show_more_def setSelectedImage_def effect.Same)
next
  case ClickClose
  then show ?thesis by (simp add: click_close_def setSelectedImage_def effect.Same)
next
  case (ClickCopy k)
  then show ?thesis by (simp add: click_copy_def copyToClipboard_def effect.Same)
next
  case (ClickDownload k)
  then show ?thesis by (simp add: click_download_def effect.Same)
next
  case (ClickRemove k)
  show ?thesis
  proof (cases "k < length (processedImages s) \<and> \<not> isProcessing (processedImages s ! k)")
    case True
    then show ?thesis
      using effect.Removed[of k "processedImages s" "taken st s" "map phase (tasks s)"]
        ClickRemove
      by (simp add: click_remove_def removeImage_def setSelectedImage_def Let_def)
  next
    case False
    then show ?thesis using ClickRemove by (auto simp: click_remove_def effect.Same)
  qed
qed


section \<open>One id along a run\<close>

lemma idle_nth: "idle i ps \<longleftrightarrow> (\<forall>x < length ps. active (ps ! x) \<noteq> Some i)"
  unfolding idle_def by (metis (no_types, lifting) image_iff in_set_conv_nth)

lemma idle_update:
  "idle i ps \<Longrightarrow> active p' \<noteq> Some i \<Longrightarrow> idle i (ps[b := p'])"
proof -
  assume a: "idle i ps" "active p' \<noteq> Some i"
  have "set (ps[b := p']) \<subseteq> insert p' (set ps)" by (rule set_update_subset_insert)
  then show ?thesis using a unfolding idle_def by auto
qed

lemma idle_append:
  "idle i ps \<Longrightarrow> active p \<noteq> Some i \<Longrightarrow> idle i (ps @ [p])"
  unfolding idle_def by auto

lemma filter_id_terminal:
  assumes "j \<noteq> i"
    and "store' = setDone j store \<or> store' = setFailed j store \<or> store' = setReadError j store"
  shows "filter (\<lambda>r. id_img r = i) store' = filter (\<lambda>r. id_img r = i) store"
  using assms filter_id_updaters(2,3,4)[of j i store] by auto

lemma filter_id_begin_failed:
  "d \<noteq> i \<Longrightarrow>
   filter (\<lambda>r. id_img r = i) (setFailed d (appendImage d n u store))
     = filter (\<lambda>r. id_img r = i) store"
  by (simp add: filter_id_updaters)

lemma idle_effect:
  assumes "effect ds store ps store' ps'" and "idle i ps" and "i \<notin> set ds"
  shows "idle i ps'
         \<and> (filter (\<lambda>r. id_img r = i) store' = filter (\<lambda>r. id_img r = i) store
            \<or> filter (\<lambda>r. id_img r = i) store' = [])"
  using assms(1)
proof (cases rule: effect.cases)
  case Same
  then show ?thesis using assms(2) by simp
next
  case (Phase b p')
  then have "active p' \<noteq> Some i" using assms(2) by (simp add: idle_nth)
  then show ?thesis using Phase assms(2) idle_update by simp
next
  case (Chunk b j fullText)
  then have "j \<noteq> i" using assms(2) by (auto simp: idle_nth)
  then show ?thesis using Chunk assms(2) idle_update filter_id_updaters(1) by simp
next
  case (Terminal b j p')
  then have "j \<noteq> i" using assms(2) by (auto simp: idle_nth)
  then show ?thesis
    using Terminal assms(2) idle_update filter_id_terminal[of j i store' store] by simp
next
  case (Begin b d n u)
  then have "d \<noteq> i" using assms(3) by auto
  then show ?thesis using Begin assms(2) idle_update filter_id_updaters(5) by simp
next
  case (BeginFailed b p' d n u)
  then have "d \<noteq> i" using assms(3) by auto
  then show ?thesis using BeginFailed assms(2) idle_update filter_id_begin_failed by simp
next
  case (NewTask p)
  then show ?thesis using assms(2) idle_append by simp
next
  case (NewBegin d n u)
  then have "d \<noteq> i" using assms(3) by auto
  then show ?thesis using NewBegin assms(2) idle_append filter_id_updaters(5) by simp
next
  case (NewBeginFailed p' d n u)
  then have "d \<noteq> i" using assms(3) by auto
  then show ?thesis using NewBeginFailed assms(2) idle_append filter_id_begin_failed by simp
next
  case (Removed k)
  then show ?thesis using assms(2) by (simp add: filter_id_dropImage)
qed

lemma id_in_store_iff:
  "i \<in> id_img ` set store \<longleftrightarrow> filter (\<lambda>r. id_img r = i) store \<noteq> []"
  by (auto simp: filter_empty_conv)

lemma unseen_effect:
  assumes "effect ds store ps store' ps'" and "unseen i store ps" and "i \<notin> set ds"
  shows "unseen i store' ps'"
  using idle_effect[OF assms(1) _ assms(3)] assms(2)
  unfolding unseen_def id_in_store_iff by auto

lemma own_vacuous: "idle i ps \<Longrightarrow> own i store ps"
  unfolding own_def idle_nth by simp

lemma own_frame:
  assumes "own i store ps"
    and "filter (\<lambda>r. id_img r = i) store' = filter (\<lambda>r. id_img r = i) store"
    and "\<And>x. x < length ps' \<Longrightarrow> active (ps' ! x) = Some i \<Longrightarrow>
           x < length ps \<and> active (ps ! x) = Some i \<and> sofar (ps' ! x) = sofar (ps ! x)"
  shows "own i store' ps'"
  unfolding own_def
proof (intro conjI allI impI ballI)
  fix x y
  assume "x < length ps'" "y < length ps'"
    and "active (ps' ! x) = Some i \<and> active (ps' ! y) = Some i"
  then have "x < length ps \<and> active (ps ! x) = Some i" "y < length ps \<and> active (ps ! y) = Some i"
    using assms(3) by blast+
  then show "x = y" using assms(1) unfolding own_def by blast
next
  fix x
  assume "x < length ps'" "active (ps' ! x) = Some i"
  then have x: "x < length ps" "active (ps ! x) = Some i" using assms(3) by blast+
  then have "i \<in> id_img ` set store" using assms(1) unfolding own_def by blast
  then show "i \<in> id_img ` set store'" using assms(2) unfolding id_in_store_iff by simp
next
  fix x r
  assume a: "x < length ps'" "active (ps' ! x) = Some i" and r: "r \<in> set store'" "id_img r = i"
  then have x: "x < length ps" "active (ps ! x) = Some i" "sofar (ps' ! x) = sofar (ps ! x)"
    using assms(3) by blast+
  have "r \<in> set (filter (\<lambda>r. id_img r = i) store')" using r by simp
  then have "r \<in> set store" using assms(2) by simp
  then have "text_img r = sofar (ps ! x) \<and> isProcessing r \<and> error r = None"
    using assms(1) x(1,2) r(2) unfolding own_def by blast
  then show "text_img r = sofar (ps' ! x)" "isProcessing r" "error r = None"
    using x(3) by simp_all
qed


lemma own_uniqueD:
  "own i store ps \<Longrightarrow> b < length ps \<Longrightarrow> b' < length ps \<Longrightarrow>
   active (ps ! b) = Some i \<Longrightarrow> active (ps ! b') = Some i \<Longrightarrow> b = b'"
  unfolding own_def by blast

lemma own_recordD:
  "own i store ps \<Longrightarrow> b < length ps \<Longrightarrow> active (ps ! b) = Some i \<Longrightarrow>
   r \<in> set store \<Longrightarrow> id_img r = i \<Longrightarrow>
   text_img r = sofar (ps ! b) \<and> isProcessing r \<and> error r = None"
  unfolding own_def by blast

lemma own_presentD:
  "own i store ps \<Longrightarrow> b < length ps \<Longrightarrow> active (ps ! b) = Some i \<Longrightarrow>
   i \<in> id_img ` set store"
  unfolding own_def by blast

lemma own_chunk:
  assumes "own i store ps" and "b < length ps" and "active (ps ! b) = Some i"
  shows "own i (setText i fullText store) (ps[b := Streaming i fullText])"
proof -
  have act: "active (ps[b := Streaming i fullText] ! x) = active (ps ! x)"
    if "x < length ps" for x
    using that assms(2,3) by (cases "x = b") simp_all
  have only: "x = b" if "x < length ps" "active (ps ! x) = Some i" for x
    using own_uniqueD[OF assms(1) that(1) assms(2) that(2) assms(3)] .
  show ?thesis
    unfolding own_def
  proof (intro conjI allI impI ballI)
    fix x y
    assume "x < length (ps[b := Streaming i fullText])" "y < length (ps[b := Streaming i fullText])"
      and "active (ps[b := Streaming i fullText] ! x) = Some i
           \<and> active (ps[b := Streaming i fullText] ! y) = Some i"
    then have "x < length ps" "active (ps ! x) = Some i" "y < length ps" "active (ps ! y) = Some i"
      using act by simp_all
    then have "x = b" "y = b" using only by blast+
    then show "x = y" by simp
  next
    fix x
    assume "x < length (ps[b := Streaming i fullText])"
      "active (ps[b := Streaming i fullText] ! x) = Some i"
    have "id_img ` set (setText i fullText store) = id_img ` set store"
      by (metis map_id_updaters(1) set_map)
    then show "i \<in> id_img ` set (setText i fullText store)"
      using own_presentD[OF assms] by simp
  next
    fix x r'
    assume x: "x < length (ps[b := Streaming i fullText])"
      "active (ps[b := Streaming i fullText] ! x) = Some i"
      and r': "r' \<in> set (setText i fullText store)" "id_img r' = i"
    have "x < length ps" "active (ps ! x) = Some i" using x act by simp_all
    then have xb: "x = b" using only by blast
    from r'(1) obtain r where r: "r \<in> set store"
      "r' = (if id_img r = i then r\<lparr>text_img := fullText\<rparr> else r)"
      unfolding setText_def by auto
    have ri: "id_img r = i" using r(2) r'(2) by (cases "id_img r = i") simp_all
    then have eq: "r' = r\<lparr>text_img := fullText\<rparr>" using r(2) by simp
    have old: "isProcessing r \<and> error r = None"
      using own_recordD[OF assms r(1) ri] by simp
    show "text_img r' = sofar (ps[b := Streaming i fullText] ! x)"
      using eq xb assms(2) by simp
    show "isProcessing r'" using eq old by simp
    show "error r' = None" using eq old by simp
  qed
qed

lemma own_effect:
  assumes "effect ds store ps store' ps'" and "own i store ps" and "i \<notin> set ds"
  shows "own i store' ps'"
  using assms(1)
proof (cases rule: effect.cases)
  case Same
  then show ?thesis using assms(2) by simp
next
  case (Phase b p')
  show ?thesis
  proof (rule own_frame[OF assms(2)])
    show "filter (\<lambda>r. id_img r = i) store' = filter (\<lambda>r. id_img r = i) store"
      using Phase by simp
  next
    fix x
    assume "x < length ps'" "active (ps' ! x) = Some i"
    then show "x < length ps \<and> active (ps ! x) = Some i \<and> sofar (ps' ! x) = sofar (ps ! x)"
      using Phase by (cases "x = b") simp_all
  qed
next
  case (Chunk b j fullText)
  show ?thesis
  proof (cases "j = i")
    case True
    then show ?thesis using own_chunk[OF assms(2), of b fullText] Chunk by simp
  next
    case False
    show ?thesis
    proof (rule own_frame[OF assms(2)])
      show "filter (\<lambda>r. id_img r = i) store' = filter (\<lambda>r. id_img r = i) store"
        using Chunk False by (simp add: filter_id_updaters)
    next
      fix x
      assume "x < length ps'" "active (ps' ! x) = Some i"
      then show "x < length ps \<and> active (ps ! x) = Some i \<and> sofar (ps' ! x) = sofar (ps ! x)"
        using Chunk False by (cases "x = b") simp_all
    qed
  qed
next
  case (Terminal b j p')
  show ?thesis
  proof (cases "j = i")
    case True
    have "active (ps' ! x) \<noteq> Some i" if "x < length ps'" for x
    proof (cases "x = b")
      case True
      then show ?thesis using Terminal by simp
    next
      case False
      have "active (ps ! x) \<noteq> Some i"
        using own_uniqueD[OF assms(2), of x b] that Terminal \<open>j = i\<close> False by auto
      then show ?thesis using Terminal False by simp
    qed
    then show ?thesis using own_vacuous unfolding idle_nth by blast
  next
    case False
    show ?thesis
    proof (rule own_frame[OF assms(2)])
      show "filter (\<lambda>r. id_img r = i) store' = filter (\<lambda>r. id_img r = i) store"
        using filter_id_terminal[OF False Terminal(5)] .
    next
      fix x
      assume "x < length ps'" "active (ps' ! x) = Some i"
      then show "x < length ps \<and> active (ps ! x) = Some i \<and> sofar (ps' ! x) = sofar (ps ! x)"
        using Terminal by (cases "x = b") simp_all
    qed
  qed
next
  case (Begin b d n u)
  then have d: "d \<noteq> i" using assms(3) by auto
  show ?thesis
  proof (rule own_frame[OF assms(2)])
    show "filter (\<lambda>r. id_img r = i) store' = filter (\<lambda>r. id_img r = i) store"
      using Begin d by (simp add: filter_id_updaters)
  next
    fix x
    assume "x < length ps'" "active (ps' ! x) = Some i"
    then show "x < length ps \<and> active (ps ! x) = Some i \<and> sofar (ps' ! x) = sofar (ps ! x)"
      using Begin d by (cases "x = b") simp_all
  qed
next
  case (BeginFailed b p' d n u)
  then have d: "d \<noteq> i" using assms(3) by auto
  show ?thesis
  proof (rule own_frame[OF assms(2)])
    show "filter (\<lambda>r. id_img r = i) store' = filter (\<lambda>r. id_img r = i) store"
      using BeginFailed d by (simp add: filter_id_updaters)
  next
    fix x
    assume "x < length ps'" "active (ps' ! x) = Some i"
    then show "x < length ps \<and> active (ps ! x) = Some i \<and> sofar (ps' ! x) = sofar (ps ! x)"
      using BeginFailed by (cases "x = b") simp_all
  qed
next
  case (NewTask p)
  show ?thesis
  proof (rule own_frame[OF assms(2)])
    show "filter (\<lambda>r. id_img r = i) store' = filter (\<lambda>r. id_img r = i) store"
      using NewTask by simp
  next
    fix x
    assume "x < length ps'" "active (ps' ! x) = Some i"
    then show "x < length ps \<and> active (ps ! x) = Some i \<and> sofar (ps' ! x) = sofar (ps ! x)"
      using NewTask by (cases "x = length ps") (simp_all add: nth_append)
  qed
next
  case (NewBegin d n u)
  then have d: "d \<noteq> i" using assms(3) by auto
  show ?thesis
  proof (rule own_frame[OF assms(2)])
    show "filter (\<lambda>r. id_img r = i) store' = filter (\<lambda>r. id_img r = i) store"
      using NewBegin d by (simp add: filter_id_updaters)
  next
    fix x
    assume "x < length ps'" "active (ps' ! x) = Some i"
    then show "x < length ps \<and> active (ps ! x) = Some i \<and> sofar (ps' ! x) = sofar (ps ! x)"
      using NewBegin d by (cases "x = length ps") (simp_all add: nth_append)
  qed
next
  case (NewBeginFailed p' d n u)
  then have d: "d \<noteq> i" using assms(3) by auto
  show ?thesis
  proof (rule own_frame[OF assms(2)])
    show "filter (\<lambda>r. id_img r = i) store' = filter (\<lambda>r. id_img r = i) store"
      using NewBeginFailed d by (simp add: filter_id_updaters)
  next
    fix x
    assume "x < length ps'" "active (ps' ! x) = Some i"
    then show "x < length ps \<and> active (ps ! x) = Some i \<and> sofar (ps' ! x) = sofar (ps ! x)"
      using NewBeginFailed by (cases "x = length ps") (simp_all add: nth_append)
  qed
next
  case (Removed k)
  show ?thesis
  proof (cases "id_img (store ! k) = i")
    case False
    show ?thesis
    proof (rule own_frame[OF assms(2)])
      show "filter (\<lambda>r. id_img r = i) store' = filter (\<lambda>r. id_img r = i) store"
        using Removed False by (simp add: filter_id_dropImage)
    next
      fix x
      assume "x < length ps'" "active (ps' ! x) = Some i"
      then show "x < length ps \<and> active (ps ! x) = Some i \<and> sofar (ps' ! x) = sofar (ps ! x)"
        using Removed by simp
    qed
  next
    case True
    have "active (ps ! x) \<noteq> Some i" if "x < length ps" for x
    proof
      assume a: "active (ps ! x) = Some i"
      have "store ! k \<in> set store" using Removed by simp
      then have "isProcessing (store ! k)"
        using own_recordD[OF assms(2) that a _ True] by simp
      then show False using Removed by simp
    qed
    then show ?thesis using own_vacuous Removed unfolding idle_nth by blast
  qed
qed


lemma first_effect:
  assumes "effect ds store ps store' ps'" and "unseen i store ps"
  shows "own i store' ps'"
proof -
  have idle: "idle i ps" and none: "i \<notin> id_img ` set store"
    using assms(2) by (simp_all add: unseen_def)
  have via: "own i store' ps'" if "effect es store ps store' ps'" "i \<notin> set es" for es
    using unseen_effect[OF that(1) assms(2) that(2)] own_vacuous by (simp add: unseen_def)
  from assms(1) show ?thesis
  proof (cases rule: effect.cases)
    case Same
    then show ?thesis using via[of "[]"] effect.Same by simp
  next
    case (Phase b p')
    then show ?thesis using via[of "[]"] effect.Phase[of b ps p' "[]" store] by simp
  next
    case (Chunk b j fullText)
    then show ?thesis using via[of "[]"] effect.Chunk[of b ps j "[]" store fullText] by simp
  next
    case (Terminal b j p')
    then show ?thesis using via[of "[]"] effect.Terminal[of b ps j p' store' store "[]"] by simp
  next
    case (BeginFailed b p' d n u)
    then have "idle i ps'" using idle idle_update by simp
    then show ?thesis by (rule own_vacuous)
  next
    case (NewTask p)
    then show ?thesis using via[of "[]"] effect.NewTask[of p "[]" store ps] by simp
  next
    case (NewBeginFailed p' d n u)
    then have "idle i ps'" using idle idle_append by simp
    then show ?thesis by (rule own_vacuous)
  next
    case (Removed k)
    then show ?thesis using via[of "[]"] effect.Removed[of k store "[]" ps] by simp
  next
    case (Begin b d n u)
    show ?thesis
    proof (cases "d = i")
      case False
      then show ?thesis using via[of "[d]"] effect.Begin[of b ps d "[d]" store n u] Begin by simp
    next
      case True
      have others: "active (ps ! x) \<noteq> Some i" if "x < length ps" for x
        using idle that by (simp add: idle_nth)
      show ?thesis
        unfolding own_def Begin True
      proof (intro conjI allI impI ballI)
        fix x y
        assume "x < length (ps[b := Reading i])" "y < length (ps[b := Reading i])"
          and a: "active (ps[b := Reading i] ! x) = Some i \<and> active (ps[b := Reading i] ! y) = Some i"
        then have "x = b" "y = b"
          using others by (metis length_list_update nth_list_update_neq)+
        then show "x = y" by simp
      next
        fix x
        assume "x < length (ps[b := Reading i])" "active (ps[b := Reading i] ! x) = Some i"
        show "i \<in> id_img ` set (appendImage i n u store)"
          by (simp add: appendImage_def newImage_def)
      next
        fix x r
        assume x: "x < length (ps[b := Reading i])" "active (ps[b := Reading i] ! x) = Some i"
          and r: "r \<in> set (appendImage i n u store)" "id_img r = i"
        have xb: "x = b" using x others by (metis length_list_update nth_list_update_neq)
        have "r = newImage i n u" using r none by (auto simp: appendImage_def)
        then show "text_img r = sofar (ps[b := Reading i] ! x)" "isProcessing r" "error r = None"
          using xb Begin(3) by (simp_all add: newImage_def)
      qed
    qed
  next
    case (NewBegin d n u)
    show ?thesis
    proof (cases "d = i")
      case False
      then show ?thesis using via[of "[d]"] effect.NewBegin[of d "[d]" store ps n u] NewBegin by simp
    next
      case True
      have others: "active (ps ! x) \<noteq> Some i" if "x < length ps" for x
        using idle that by (simp add: idle_nth)
      show ?thesis
        unfolding own_def NewBegin True
      proof (intro conjI allI impI ballI)
        fix x y
        assume "x < length (ps @ [Reading i])" "y < length (ps @ [Reading i])"
          and a: "active ((ps @ [Reading i]) ! x) = Some i \<and> active ((ps @ [Reading i]) ! y) = Some i"
        then have "x = length ps" "y = length ps"
          using others by (metis length_append_singleton less_Suc_eq nth_append)+
        then show "x = y" by simp
      next
        fix x
        assume "x < length (ps @ [Reading i])" "active ((ps @ [Reading i]) ! x) = Some i"
        show "i \<in> id_img ` set (appendImage i n u store)"
          by (simp add: appendImage_def newImage_def)
      next
        fix x r
        assume x: "x < length (ps @ [Reading i])" "active ((ps @ [Reading i]) ! x) = Some i"
          and r: "r \<in> set (appendImage i n u store)" "id_img r = i"
        have xb: "x = length ps"
          using x others by (metis length_append_singleton less_Suc_eq nth_append)
        have "r = newImage i n u" using r none by (auto simp: appendImage_def)
        then show "text_img r = sofar ((ps @ [Reading i]) ! x)" "isProcessing r" "error r = None"
          using xb by (simp_all add: newImage_def)
      qed
    qed
  qed
qed

lemma own_run:
  assumes "own i (processedImages s) (map phase (tasks s))" and "i \<notin> set (drawn ss s)"
  shows "own i (processedImages (run ss s)) (map phase (tasks (run ss s)))"
  using assms
proof (induction ss arbitrary: s)
  case Nil
  then show ?case by (simp add: run_def)
next
  case (Cons st ss)
  have "own i (processedImages (step st s)) (map phase (tasks (step st s)))"
    using own_effect[OF effect_step Cons.prems(1)] Cons.prems(2) by simp
  then show ?case using Cons.IH[of "step st s"] Cons.prems(2) by (simp add: run_def)
qed

lemma unseen_run:
  assumes "unseen i (processedImages s) (map phase (tasks s))"
    and "count_list (drawn ss s) i \<le> 1"
  shows "own i (processedImages (run ss s)) (map phase (tasks (run ss s)))"
  using assms
proof (induction ss arbitrary: s)
  case Nil
  then show ?case using own_vacuous by (simp add: run_def unseen_def)
next
  case (Cons st ss)
  have r: "run (st # ss) s = run ss (step st s)" by (simp add: run_def)
  show ?case
  proof (cases "i \<in> set (taken st s)")
    case True
    then have "count_list (taken st s) i \<noteq> 0" by (simp add: count_list_0_iff)
    then have "count_list (drawn ss (step st s)) i = 0" using Cons.prems(2) by simp
    then have n: "i \<notin> set (drawn ss (step st s))" by (simp add: count_list_0_iff)
    have "own i (processedImages (step st s)) (map phase (tasks (step st s)))"
      using first_effect[OF effect_step Cons.prems(1)] .
    then show ?thesis unfolding r using own_run n by blast
  next
    case False
    then have "count_list (taken st s) i = 0" by (simp add: count_list_0_iff)
    then have c: "count_list (drawn ss (step st s)) i \<le> 1" using Cons.prems(2) by simp
    have "unseen i (processedImages (step st s)) (map phase (tasks (step st s)))"
      using unseen_effect[OF effect_step Cons.prems(1) False] .
    then show ?thesis unfolding r using Cons.IH c by blast
  qed
qed

lemma idle_run:
  assumes "idle i (map phase (tasks s))" and "i \<notin> set (drawn ss s)"
  shows "filter (\<lambda>r. id_img r = i) (processedImages (run ss s))
           = filter (\<lambda>r. id_img r = i) (processedImages s)
         \<or> filter (\<lambda>r. id_img r = i) (processedImages (run ss s)) = []"
  using assms
proof (induction ss arbitrary: s)
  case Nil
  then show ?case by (simp add: run_def)
next
  case (Cons st ss)
  have r: "run (st # ss) s = run ss (step st s)" by (simp add: run_def)
  have d: "i \<notin> set (taken st s)" "i \<notin> set (drawn ss (step st s))"
    using Cons.prems(2) by simp_all
  note e = idle_effect[OF effect_step Cons.prems(1) d(1)]
  from Cons.IH[OF conjunct1[OF e] d(2)] conjunct2[OF e]
  show ?case unfolding r by auto
qed

lemma unseen_init: "unseen i (processedImages init) (map phase (tasks init))"
  by (simp add: unseen_def idle_def init_def)


section \<open>The text of a failed record\<close>

lemma map_text_failures:
  "map text_img (setFailed i prev) = map text_img prev"
  "map text_img (setReadError i prev) = map text_img prev"
  by (simp_all add: setFailed_def setReadError_def)

lemma own_settles_idle:
  assumes "own i store ps" and "b < length ps" and "active (ps ! b) = Some i"
    and "active p' = None"
  shows "idle i (ps[b := p'])"
  unfolding idle_nth
proof (intro allI impI)
  fix x
  assume x: "x < length (ps[b := p'])"
  show "active (ps[b := p'] ! x) \<noteq> Some i"
  proof (cases "x = b")
    case True
    then show ?thesis using assms(2,4) by simp
  next
    case False
    then have "active (ps ! x) \<noteq> Some i"
      using own_uniqueD[OF assms(1) _ assms(2) _ assms(3), of x] x by auto
    then show ?thesis using False by simp
  qed
qed

lemma catch_phases:
  assumes "b < length (tasks s)" and "phase (tasks s ! b) = Streaming i fullText"
  shows "map phase (tasks (step (StreamThrow b raw) s))
           = (map phase (tasks s))[b := Delaying (now s + 1000)]"
  using assms by (simp add: stream_catch_def map_update)

lemma own_init_run:
  "count_list (drawn ss init) i \<le> 1 \<Longrightarrow>
   own i (processedImages (run ss init)) (map phase (tasks (run ss init)))"
  using unseen_run[OF unseen_init] .

lemma failed_record_in_run:
  assumes "count_list (drawn ss init) i \<le> 1" and "b < length (tasks (run ss init))"
    and "phase (tasks (run ss init) ! b) = Streaming i fullText"
  shows "i \<in> id_img ` set (processedImages (step (StreamThrow b raw) (run ss init)))"
    and "\<forall>r \<in> set (processedImages (step (StreamThrow b raw) (run ss init))).
           id_img r = i \<longrightarrow>
             text_img r = fullText \<and> \<not> isProcessing r
             \<and> error r = Some ''Failed to process image''
             \<and> cardBody r = CardError ''Failed to process image''"
    and "idle i (map phase (tasks (step (StreamThrow b raw) (run ss init))))"
proof -
  let ?s = "run ss init"
  have own: "own i (processedImages ?s) (map phase (tasks ?s))"
    using own_init_run[OF assms(1)] .
  have b: "b < length (map phase (tasks ?s))" using assms(2) by simp
  have a: "active (map phase (tasks ?s) ! b) = Some i"
    and t: "sofar (map phase (tasks ?s) ! b) = fullText"
    using assms(2,3) by simp_all
  have st: "processedImages (step (StreamThrow b raw) ?s) = setFailed i (processedImages ?s)"
    using catch_store[OF assms(2), of i fullText raw] assms(3) by simp
  have "i \<in> id_img ` set (processedImages ?s)"
    using own_presentD[OF own b a] .
  then show "i \<in> id_img ` set (processedImages (step (StreamThrow b raw) ?s))"
    unfolding st by (metis map_id_updaters(3) set_map)
  show "\<forall>r \<in> set (processedImages (step (StreamThrow b raw) ?s)).
           id_img r = i \<longrightarrow>
             text_img r = fullText \<and> \<not> isProcessing r
             \<and> error r = Some ''Failed to process image''
             \<and> cardBody r = CardError ''Failed to process image''"
  proof (intro ballI impI)
    fix r
    assume r: "r \<in> set (processedImages (step (StreamThrow b raw) ?s))" and i: "id_img r = i"
    from r obtain x where x: "x \<in> set (processedImages ?s)"
      and rx: "r = (if id_img x = i
                then x\<lparr>isProcessing := False, error := Some ''Failed to process image''\<rparr>
                else x)"
      unfolding st setFailed_def by auto
    have xi: "id_img x = i" using rx i by (cases "id_img x = i") simp_all
    have "text_img x = fullText" using own_recordD[OF own b a x xi] t by simp
    then show "text_img r = fullText \<and> \<not> isProcessing r
             \<and> error r = Some ''Failed to process image''
             \<and> cardBody r = CardError ''Failed to process image''"
      using rx xi by (simp add: cardBody_def)
  qed
  show "idle i (map phase (tasks (step (StreamThrow b raw) ?s)))"
    unfolding catch_phases[OF assms(2,3)]
    using own_settles_idle[OF own b a] by simp
qed

lemma buttons_hand_out_text:
  "k < length (processedImages s) \<and> \<not> isProcessing (processedImages s ! k) \<longrightarrow>
        detailPane (step (ClickCard k) s)
          = Some (name (processedImages s ! k), text_img (processedImages s ! k))
        \<and> clipboard (step (ClickCopy k) s) = text_img (processedImages s ! k)
        \<and> dl_content (last (downloads (step (ClickDownload k) s)))
            = text_img (processedImages s ! k)"
  by (simp add: click_card_def click_copy_def click_download_def detailPane_def detail_of_def
      setSelectedImage_def copyToClipboard_def downloadText_def)





section \<open>One batch, one loop\<close>

text \<open>
  Claim C1, as amended. In every state that a session can reach, for every call of
  \<^verbatim>\<open>onDrop\<close>, that is for every accepted batch: the files whose processing has begun are the
  first files of the batch, in the batch's order; a file begins only when the promise of
  the file before it has settled, by resolving or by a rejection that the loop caught, and
  at least 1000 milliseconds have passed since then; every request belongs to a file that
  has begun and is sent no earlier than that; and the requests of the call that were sent
  exceed those that ended by at most one. A stimulus that begins a later file of a call
  finds the call waiting in a delay that is due, at least 1000 milliseconds after the last
  promise settled, with none of its requests open, and this stimulus is the one that appends
  the record of the file. Nothing is said across calls: every drop runs a loop of its own.
\<close>

theorem sequential_processing:
  "(\<forall>t \<in> set (tasks (run ss init)).
      map (\<lambda>e. fst (snd e)) (begun t) = take (length (begun t)) (files t)
    \<and> (\<forall>k. Suc k < length (begun t) \<longrightarrow>
          k < length (settled t)
          \<and> fst (begun t ! k) \<le> fst (settled t ! k)
          \<and> fst (settled t ! k) + 1000 \<le> fst (begun t ! Suc k))
    \<and> (\<forall>q \<in> set (requested t). snd q < length (begun t) \<and> fst (begun t ! snd q) \<le> fst q)
    \<and> length (answered t) \<le> length (requested t)
    \<and> length (requested t) \<le> Suc (length (answered t)))
   \<and> (begins st (run ss init) = Some (b, f, env) \<and> b < length (tasks (run ss init)) \<longrightarrow>
        (\<exists>due. phase (tasks (run ss init) ! b) = Delaying due \<and> due \<le> now (run ss init))
        \<and> f = files (tasks (run ss init) ! b) ! Suc (idx (tasks (run ss init) ! b))
        \<and> length (settled (tasks (run ss init) ! b)) = Suc (idx (tasks (run ss init) ! b))
        \<and> fst (settled (tasks (run ss init) ! b) ! idx (tasks (run ss init) ! b)) + 1000
            \<le> now (run ss init)
        \<and> length (requested (tasks (run ss init) ! b))
            = length (answered (tasks (run ss init) ! b))
        \<and> length (processedImages (step st (run ss init)))
            = Suc (length (processedImages (run ss init))))"
proof (rule conjI)
  show "\<forall>t \<in> set (tasks (run ss init)).
      map (\<lambda>e. fst (snd e)) (begun t) = take (length (begun t)) (files t)
    \<and> (\<forall>k. Suc k < length (begun t) \<longrightarrow>
          k < length (settled t)
          \<and> fst (begun t ! k) \<le> fst (settled t ! k)
          \<and> fst (settled t ! k) + 1000 \<le> fst (begun t ! Suc k))
    \<and> (\<forall>q \<in> set (requested t). snd q < length (begun t) \<and> fst (begun t ! snd q) \<le> fst q)
    \<and> length (answered t) \<le> length (requested t)
    \<and> length (requested t) \<le> Suc (length (answered t))"
  proof
    fix t
    assume "t \<in> set (tasks (run ss init))"
    then obtain b where "b < length (tasks (run ss init))" and "t = tasks (run ss init) ! b"
      by (auto simp: in_set_conv_nth)
    then have inv: "task_inv (now (run ss init)) t"
      using all_inv_run[OF all_inv_init, of ss] by (simp add: all_inv_def)
    have len: "k < length (settled t)" if "Suc k < length (begun t)" for k
      using inv that unfolding task_inv_def by (cases "phase t") auto
    show "map (\<lambda>e. fst (snd e)) (begun t) = take (length (begun t)) (files t)
      \<and> (\<forall>k. Suc k < length (begun t) \<longrightarrow>
            k < length (settled t)
            \<and> fst (begun t ! k) \<le> fst (settled t ! k)
            \<and> fst (settled t ! k) + 1000 \<le> fst (begun t ! Suc k))
      \<and> (\<forall>q \<in> set (requested t). snd q < length (begun t) \<and> fst (begun t ! snd q) \<le> fst q)
      \<and> length (answered t) \<le> length (requested t)
      \<and> length (requested t) \<le> Suc (length (answered t))"
      using inv len unfolding task_inv_def by blast
  qed
next
  define s where "s = run ss init"
  have "(\<exists>due. phase (tasks s ! b) = Delaying due \<and> due \<le> now s)
        \<and> f = files (tasks s ! b) ! Suc (idx (tasks s ! b))
        \<and> length (settled (tasks s ! b)) = Suc (idx (tasks s ! b))
        \<and> fst (settled (tasks s ! b) ! idx (tasks s ! b)) + 1000 \<le> now s
        \<and> length (requested (tasks s ! b)) = length (answered (tasks s ! b))
        \<and> length (processedImages (step st s)) = Suc (length (processedImages s))"
    if a: "begins st s = Some (b, f, env)" and l: "b < length (tasks s)"
  proof -
    from begin_origin[OF a] l
    obtain due where p: "phase (tasks s ! b) = Delaying due" and d: "due \<le> now s"
      and f: "f = files (tasks s ! b) ! Suc (idx (tasks s ! b))"
      by auto
    have inv: "task_inv (now s) (tasks s ! b)"
      using all_inv_run[OF all_inv_init, of ss] l by (simp add: all_inv_def s_def)
    have i: "length (settled (tasks s ! b)) = Suc (idx (tasks s ! b))"
      "fst (settled (tasks s ! b) ! idx (tasks s ! b)) + 1000 \<le> due"
      "length (requested (tasks s ! b)) = length (answered (tasks s ! b))"
      using inv p unfolding task_inv_def by simp_all
    have "length (map id_img (processedImages (step st s)))
            = length (map id_img (processedImages s) @ [random_id env])"
      using step_with_begin[OF a] by simp
    then have g: "length (processedImages (step st s)) = Suc (length (processedImages s))"
      by simp
    show ?thesis using p d f i g by auto
  qed
  then show "begins st (run ss init) = Some (b, f, env) \<and> b < length (tasks (run ss init)) \<longrightarrow>
        (\<exists>due. phase (tasks (run ss init) ! b) = Delaying due \<and> due \<le> now (run ss init))
        \<and> f = files (tasks (run ss init) ! b) ! Suc (idx (tasks (run ss init) ! b))
        \<and> length (settled (tasks (run ss init) ! b)) = Suc (idx (tasks (run ss init) ! b))
        \<and> fst (settled (tasks (run ss init) ! b) ! idx (tasks (run ss init) ! b)) + 1000
            \<le> now (run ss init)
        \<and> length (requested (tasks (run ss init) ! b))
            = length (answered (tasks (run ss init) ! b))
        \<and> length (processedImages (step st (run ss init)))
            = Suc (length (processedImages (run ss init)))"
    unfolding s_def by blast
qed

text \<open>
  The statement at a batch of two files that was processed to its end, and at the stimulus
  that begins its second file.
\<close>

theorem sequential_processing_witness:
  "tasks both_done ! 0 \<in> set (tasks both_done)
   \<and> Suc 0 < length (begun (tasks both_done ! 0))
   \<and> (1000, 1) \<in> set (requested (tasks both_done ! 0))
   \<and> map (\<lambda>e. fst (snd e)) (begun (tasks both_done ! 0)) = [receipt, scan]
   \<and> fst (settled (tasks both_done ! 0) ! 0) + 1000 \<le> fst (begun (tasks both_done ! 0) ! Suc 0)
   \<and> fst (begun (tasks both_done ! 0) ! snd (1000 :: nat, 1 :: nat)) \<le> 1000
   \<and> begins (Timeout 0 draw2) receipt_waited = Some (0, scan, draw2)
   \<and> 0 < length (tasks receipt_waited)
   \<and> idx (tasks receipt_waited ! 0) = 0
   \<and> fst (settled (tasks receipt_waited ! 0) ! 0) + 1000 \<le> now receipt_waited
   \<and> length (requested (tasks receipt_waited ! 0)) = length (answered (tasks receipt_waited ! 0))
   \<and> length (processedImages (step (Timeout 0 draw2) receipt_waited))
       = Suc (length (processedImages receipt_waited))"
proof -
  have m: "tasks both_done ! 0 \<in> set (tasks both_done)" by code_simp
  have l: "Suc 0 < length (begun (tasks both_done ! 0))" by code_simp
  have q: "(1000, 1) \<in> set (requested (tasks both_done ! 0))" by code_simp
  have f: "map (\<lambda>e. fst (snd e)) (begun (tasks both_done ! 0)) = [receipt, scan]" by code_simp
  have w: "begins (Timeout 0 draw2) receipt_waited = Some (0, scan, draw2)"
    "0 < length (tasks receipt_waited)" "idx (tasks receipt_waited ! 0) = 0"
    by code_simp+
  note t = sequential_processing[of "[Drop [receipt, scan] draw1, FileLoad 0, StreamOpen 0,
          StreamChunk 0 ''Total 12'', StreamEnd 0, Tick 1000, Timeout 0 draw2, FileLoad 0,
          StreamOpen 0, StreamChunk 0 ''Page 2'', StreamEnd 0, ClickCard 1]",
          folded both_done_def, THEN conjunct1, rule_format, OF m]
  note u = sequential_processing[of "[Drop [receipt, scan] draw1, FileLoad 0, StreamOpen 0,
          StreamChunk 0 ''Total 12'', StreamEnd 0, Tick 1000]" "Timeout 0 draw2" 0 scan draw2,
          folded receipt_waited_def, THEN conjunct2]
  have a: "fst (settled (tasks both_done ! 0) ! 0) + 1000 \<le> fst (begun (tasks both_done ! 0) ! Suc 0)"
    using t l by blast
  have b: "fst (begun (tasks both_done ! 0) ! snd (1000 :: nat, 1 :: nat)) \<le> fst (1000 :: nat, 1 :: nat)"
    using t q by blast
  have c: "fst (settled (tasks receipt_waited ! 0) ! idx (tasks receipt_waited ! 0)) + 1000
             \<le> now receipt_waited"
    "length (requested (tasks receipt_waited ! 0)) = length (answered (tasks receipt_waited ! 0))"
    "length (processedImages (step (Timeout 0 draw2) receipt_waited))
       = Suc (length (processedImages receipt_waited))"
    using u w(1,2) by blast+
  show ?thesis using m l q f a b w c by simp
qed

text \<open>
  The claim as stated fails: two batches are dropped one after the other, and at the same
  moment each of the two calls has sent one request and none has ended, so that two
  requests are open at once.
\<close>

theorem two_batches_counterexample:
  "length (requested (tasks two_batches ! 0)) = 1
   \<and> length (answered (tasks two_batches ! 0)) = 0
   \<and> length (requested (tasks two_batches ! 1)) = 1
   \<and> length (answered (tasks two_batches ! 1)) = 0
   \<and> map phase (tasks two_batches) = [Requesting ''k3x9q'', Requesting ''p07fz'']"
  by code_simp

end
